theory Spec2Isabelle
  imports Main "HOL-Library.Word"
begin

unbundle bit_operations_syntax

section \<open>Request values and failures\<close>

text \<open>
  A tool call carries a dynamically typed JSON value. A JavaScript number is a double;
  the parsers only ask whether it is an integer (\<open>Number.isInteger\<close>) and, if so,
  compare it with small bounds, so a number is either an integer with its exact value or
  something else (a fraction, NaN, an infinity). An object is the list of its own
  properties, each name once; reading a property that is absent gives \<open>undefined\<close>.
  Strings are lists of code units, restricted here to 8-bit units.
\<close>

datatype number = Integer int | NonInteger

datatype jsval =
    JUndefined
  | JNull
  | JBool bool
  | JNum number
  | JStr string
  | JArr "jsval list"
  | JObj "(string \<times> jsval) list"

text \<open>
  The \<open>code\<close> field of \<open>ToolError\<close>, and \<open>UNKNOWN_TOOL\<close>, which only the
  request handlers report; messages are not modelled.
\<close>

datatype code =
    INVALID_INPUT
  | COMMAND_NOT_ALLOWED
  | DISALLOWED_ARGUMENT
  | SPAWN_FAILED
  | EXEC_FAILED
  | TIMEOUT
  | NON_ZERO_EXIT
  | ABORTED
  | INVALID_URL
  | SSRF_BLOCKED
  | DNS_FAILED
  | FETCH_FAILED
  | TOO_MANY_REDIRECTS
  | INTERNAL_ERROR
  | UNKNOWN_TOOL

fun isPlainObject :: "jsval \<Rightarrow> bool" where
  "isPlainObject (JObj _) = True"
| "isPlainObject _ = False"

text \<open>\<open>raw.name\<close> on a plain object.\<close>

fun getProp :: "jsval \<Rightarrow> string \<Rightarrow> jsval" where
  "getProp (JObj fields) k = (case map_of fields k of None \<Rightarrow> JUndefined | Some v \<Rightarrow> v)"
| "getProp _ k = JUndefined"

fun parseBoundedInt :: "jsval \<Rightarrow> int \<Rightarrow> int \<Rightarrow> int \<Rightarrow> code + int" where
  "parseBoundedInt JUndefined lo hi defaultValue = Inr defaultValue"
| "parseBoundedInt (JNum (Integer n)) lo hi defaultValue =
     (if n < lo \<or> n > hi then Inl INVALID_INPUT else Inr n)"
| "parseBoundedInt _ lo hi defaultValue = Inl INVALID_INPUT"

section \<open>The exec core\<close>

definition ALLOWED_COMMANDS :: "string set" where
  "ALLOWED_COMMANDS = {''git'', ''npm'', ''node''}"

definition EXEC_DEFAULT_TIMEOUT_MS :: int where "EXEC_DEFAULT_TIMEOUT_MS = 60000"
definition EXEC_MAX_TIMEOUT_MS :: int where "EXEC_MAX_TIMEOUT_MS = 120000"
definition DEFAULT_MAX_OUTPUT_BYTES :: int where "DEFAULT_MAX_OUTPUT_BYTES = 200000"
definition MAX_MAX_OUTPUT_BYTES :: int where "MAX_MAX_OUTPUT_BYTES = 1000000"
definition MAX_ARGS :: nat where "MAX_ARGS = 64"
definition MAX_ARG_LENGTH :: nat where "MAX_ARG_LENGTH = 8192"
definition MAX_STDIN_BYTES :: nat where "MAX_STDIN_BYTES = 200000"

fun isString :: "jsval \<Rightarrow> bool" where
  "isString (JStr _) = True"
| "isString _ = False"

fun strOf :: "jsval \<Rightarrow> string" where
  "strOf (JStr s) = s"
| "strOf _ = []"

text \<open>The \<open>for (const arg of value)\<close> loop of \<open>parseArgs\<close>.\<close>

fun checkArgs :: "string list \<Rightarrow> code + unit" where
  "checkArgs [] = Inr ()"
| "checkArgs (arg # rest) =
     (if length arg > MAX_ARG_LENGTH then Inl INVALID_INPUT
      else if CHR 0x00 \<in> set arg then Inl INVALID_INPUT
      else checkArgs rest)"

fun parseArgs :: "jsval \<Rightarrow> code + string list" where
  "parseArgs JUndefined = Inr []"
| "parseArgs (JArr vs) =
     (if \<exists>v \<in> set vs. \<not> isString v then Inl INVALID_INPUT
      else if length vs > MAX_ARGS then Inl INVALID_INPUT
      else (case checkArgs (map strOf vs) of
              Inl e \<Rightarrow> Inl e
            | Inr _ \<Rightarrow> Inr (map strOf vs)))"
| "parseArgs _ = Inl INVALID_INPUT"

definition startsWith :: "string \<Rightarrow> string \<Rightarrow> bool" where
  "startsWith a p = (take (length p) a = p)"

definition endsWith :: "string \<Rightarrow> string \<Rightarrow> bool" where
  "endsWith a p = (length p \<le> length a \<and> drop (length a - length p) a = p)"

text \<open>One pass of the \<open>git\<close> loop body: does it call \<open>deny\<close>?\<close>

definition gitDenied :: "string \<Rightarrow> bool" where
  "gitDenied a =
     ((a = ''-C'' \<or> (startsWith a ''-C'' \<and> length a > 2))
      \<or> (a = ''--git-dir'' \<or> startsWith a ''--git-dir='')
      \<or> (a = ''--work-tree'' \<or> startsWith a ''--work-tree=''))"

fun gitLoop :: "string list \<Rightarrow> code + unit" where
  "gitLoop [] = Inr ()"
| "gitLoop (a # rest) = (if gitDenied a then Inl DISALLOWED_ARGUMENT else gitLoop rest)"

text \<open>
  The \<open>npm\<close> loop: its first two tests look at the argument alone; the third reads
  \<open>args[i + 1]\<close>, which is \<open>undefined\<close> (and so different from \<open>'global'\<close>) past
  the end of the array.
\<close>

definition npmDenied :: "string \<Rightarrow> bool" where
  "npmDenied a =
     ((a = ''--prefix'' \<or> startsWith a ''--prefix='')
      \<or> (a = ''--global'' \<or> a = ''-g'' \<or> startsWith a ''--location=global''))"

fun npmLoop :: "string list \<Rightarrow> code + unit" where
  "npmLoop [] = Inr ()"
| "npmLoop (a # rest) =
     (if npmDenied a then Inl DISALLOWED_ARGUMENT
      else if a = ''--location'' \<and> (case rest of [] \<Rightarrow> False | b # _ \<Rightarrow> b = ''global'')
        then Inl DISALLOWED_ARGUMENT
      else npmLoop rest)"

definition validateDisallowedCwdArgs :: "string \<Rightarrow> string list \<Rightarrow> code + unit" where
  "validateDisallowedCwdArgs command args =
     (case (if command = ''git'' then gitLoop args else Inr ()) of
        Inl e \<Rightarrow> Inl e
      | Inr _ \<Rightarrow> (if command = ''npm'' then npmLoop args else Inr ()))"

record exec_input =
  command :: string
  args :: "string list"
  stdin :: "string option"
  timeoutMs :: int
  maxOutputBytes :: int

text \<open>
  \<open>Buffer.byteLength(s, 'utf8')\<close>: a code unit below 128 is one byte, one from 128 to
  255 is two.
\<close>

definition utf8ByteLength :: "string \<Rightarrow> nat" where
  "utf8ByteLength s = sum_list (map (\<lambda>c. if of_char c < (128::nat) then 1 else 2) s)"

definition parseExecToolInput :: "jsval \<Rightarrow> code + exec_input" where
  "parseExecToolInput raw =
     (if \<not> isPlainObject raw then Inl INVALID_INPUT
      else if \<not> isString (getProp raw ''command'')
              \<or> strOf (getProp raw ''command'') \<notin> ALLOWED_COMMANDS
        then Inl COMMAND_NOT_ALLOWED
      else
        (case parseArgs (getProp raw ''args'') of
           Inl e \<Rightarrow> Inl e
         | Inr as \<Rightarrow>
        (case validateDisallowedCwdArgs (strOf (getProp raw ''command'')) as of
           Inl e \<Rightarrow> Inl e
         | Inr _ \<Rightarrow>
        (case parseBoundedInt (getProp raw ''timeoutMs'') 1 EXEC_MAX_TIMEOUT_MS
                EXEC_DEFAULT_TIMEOUT_MS of
           Inl e \<Rightarrow> Inl e
         | Inr t \<Rightarrow>
        (case parseBoundedInt (getProp raw ''maxOutputBytes'') 1024 MAX_MAX_OUTPUT_BYTES
                DEFAULT_MAX_OUTPUT_BYTES of
           Inl e \<Rightarrow> Inl e
         | Inr m \<Rightarrow>
        (if getProp raw ''stdin'' \<noteq> JUndefined \<and> \<not> isString (getProp raw ''stdin'')
           then Inl INVALID_INPUT
         else if getProp raw ''stdin'' \<noteq> JUndefined \<and> strOf (getProp raw ''stdin'') \<noteq> []
                 \<and> utf8ByteLength (strOf (getProp raw ''stdin'')) > MAX_STDIN_BYTES
           then Inl INVALID_INPUT
         else Inr \<lparr> command = strOf (getProp raw ''command''),
                    args = as,
                    stdin = (if getProp raw ''stdin'' = JUndefined then None
                             else Some (strOf (getProp raw ''stdin''))),
                    timeoutMs = t,
                    maxOutputBytes = m \<rparr>))))))"

subsection \<open>The byte-bounded collector\<close>

type_synonym bytes = "8 word list"

text \<open>Decoded text: a JavaScript string, as its UTF-16 code units.\<close>

type_synonym utf16 = "16 word list"

text \<open>What a \<open>data\<close> event delivers: a \<open>Buffer\<close>, or anything else.\<close>

datatype data = Buffer bytes | NotBuffer

record collector =
  chunks :: "bytes list"
  bytes :: int
  truncated :: bool

definition createCollector :: collector where
  "createCollector = \<lparr> chunks = [], bytes = 0, truncated = False \<rparr>"

fun onData :: "int \<Rightarrow> collector \<Rightarrow> data \<Rightarrow> collector" where
  "onData maxBytes st NotBuffer = st"
| "onData maxBytes st (Buffer chunk) =
     (if bytes st \<ge> maxBytes then st\<lparr> truncated := True \<rparr>
      else if int (length chunk) > maxBytes - bytes st
        then st\<lparr> chunks := chunks st @ [take (nat (maxBytes - bytes st)) chunk],
                 bytes := maxBytes,
                 truncated := True \<rparr>
      else st\<lparr> chunks := chunks st @ [chunk],
               bytes := bytes st + int (length chunk) \<rparr>)"

text \<open>
  The collector's \<open>text()\<close>: \<open>Buffer.concat(chunks).toString('utf8')\<close>. The UTF-8
  decoding of a \<open>Buffer\<close> belongs to the platform: it is the parameter \<open>toString\<close>.
\<close>

definition collectorText :: "(bytes \<Rightarrow> utf16) \<Rightarrow> collector \<Rightarrow> utf16" where
  "collectorText toString st = toString (concat (chunks st))"

subsection \<open>The process runner\<close>

text \<open>
  JavaScript runs one callback at a time, so an invocation of \<open>runExecTool\<close> is its
  synchronous prologue followed by the callbacks that the event loop delivers, in their
  order of delivery. The environment of a call says what \<open>spawn\<close> and \<open>process.kill\<close>
  do, whether a cancellation signal was passed (and whether it had already fired), which
  events arrive afterwards, and how the platform decodes a \<open>Buffer\<close> as UTF-8.
\<close>

datatype event =
    StdoutData data
  | StderrData data
  | TimerFired
  | AbortFired
  | ChildError
  | ChildClose "int option" "string option"

datatype effect =
    Spawn string "string list"
  | KillGroup nat
  | KillChild
  | StdinWrite string
  | StdinEnd
  | ClearTimeout

record exec_env =
  spawnThrows :: bool
  pid :: "nat option"
  groupKillThrows :: bool
  signalAborted :: "bool option"
  events :: "event list"
  elapsedMs :: int
  bufferToString :: "bytes \<Rightarrow> utf16"

record exec_result =
  cwd :: string
  r_command :: string
  r_args :: "string list"
  exitCode :: "int option"
  signal :: "string option"
  timedOut :: bool
  durationMs :: int
  stdout :: utf16
  stderr :: utf16
  stdoutTruncated :: bool
  stderrTruncated :: bool

text \<open>A thrown \<open>ToolError\<close>: its code, and the outcome it carries as details, if any.\<close>

datatype failure = Failure code "exec_result option"

definition WORKSPACE_CWD :: string where
  "WORKSPACE_CWD = ''/workspace''"

definition killProcessGroup :: "exec_env \<Rightarrow> effect list" where
  "killProcessGroup env =
     (case pid env of
        None \<Rightarrow> []
      | Some p \<Rightarrow> (if groupKillThrows env then [KillChild] else [KillGroup p]))"

record run_state =
  out :: collector
  err :: collector
  timedOutFlag :: bool
  timerArmed :: bool
  abortListening :: bool
  effs :: "effect list"

text \<open>
  The callbacks, one event at a time, until \<open>close\<close> or \<open>error\<close> settles the promise.
  A call whose child never closes does not return: the value is \<open>None\<close>.
\<close>

fun runEvents ::
  "exec_input \<Rightarrow> exec_env \<Rightarrow> run_state \<Rightarrow> event list
     \<Rightarrow> effect list \<times> (failure + exec_result) option" where
  "runEvents input env st [] = (effs st, None)"
| "runEvents input env st (StdoutData c # es) =
     runEvents input env (st\<lparr> out := onData (maxOutputBytes input) (out st) c \<rparr>) es"
| "runEvents input env st (StderrData c # es) =
     runEvents input env (st\<lparr> err := onData (maxOutputBytes input) (err st) c \<rparr>) es"
| "runEvents input env st (TimerFired # es) =
     (if timerArmed st
      then runEvents input env
             (st\<lparr> timedOutFlag := True, timerArmed := False,
                   effs := effs st @ killProcessGroup env \<rparr>) es
      else runEvents input env st es)"
| "runEvents input env st (AbortFired # es) =
     (if abortListening st
      then runEvents input env
             (st\<lparr> abortListening := False, effs := effs st @ killProcessGroup env \<rparr>) es
      else runEvents input env st es)"
| "runEvents input env st (ChildError # es) =
     (effs st, Some (Inl (Failure EXEC_FAILED None)))"
| "runEvents input env st (ChildClose c sig # es) =
     (let result = \<lparr> cwd = WORKSPACE_CWD,
                      r_command = command input,
                      r_args = args input,
                      exitCode = c,
                      signal = sig,
                      timedOut = timedOutFlag st,
                      durationMs = elapsedMs env,
                      stdout = collectorText (bufferToString env) (out st),
                      stderr = collectorText (bufferToString env) (err st),
                      stdoutTruncated = truncated (out st),
                      stderrTruncated = truncated (err st) \<rparr>
      in (effs st @ [ClearTimeout],
          Some (if timedOutFlag st then Inl (Failure TIMEOUT (Some result))
                else if c \<noteq> Some 0 then Inl (Failure NON_ZERO_EXIT (Some result))
                else Inr result)))"

definition runExecTool ::
  "exec_input \<Rightarrow> exec_env \<Rightarrow> effect list \<times> (failure + exec_result) option" where
  "runExecTool input env =
     (if spawnThrows env then ([], Some (Inl (Failure SPAWN_FAILED None)))
      else if signalAborted env = Some True
        then ([Spawn (command input) (args input), ClearTimeout] @ killProcessGroup env,
              Some (Inl (Failure ABORTED None)))
      else runEvents input env
             \<lparr> out = createCollector, err = createCollector,
               timedOutFlag = False, timerArmed = True,
               abortListening = (signalAborted env \<noteq> None),
               effs = [Spawn (command input) (args input)]
                      @ (case stdin input of None \<Rightarrow> [] | Some s \<Rightarrow> [StdinWrite s])
                      @ [StdinEnd] \<rparr>
             (events env))"

text \<open>
  The \<open>CallToolRequest\<close> handler of the exec server: what it did, and the code of the
  error result or the success payload.
\<close>

definition EXEC_TOOL_NAME :: string where
  "EXEC_TOOL_NAME = ''exec''"

definition execHandler ::
  "string \<Rightarrow> jsval \<Rightarrow> exec_env \<Rightarrow> effect list \<times> (code + exec_result) option" where
  "execHandler name arguments env =
     (if name \<noteq> EXEC_TOOL_NAME then ([], Some (Inl UNKNOWN_TOOL))
      else (case parseExecToolInput arguments of
              Inl c \<Rightarrow> ([], Some (Inl c))
            | Inr input \<Rightarrow>
                (case runExecTool input env of
                   (fx, None) \<Rightarrow> (fx, None)
                 | (fx, Some (Inl (Failure c d))) \<Rightarrow> (fx, Some (Inl c))
                 | (fx, Some (Inr r)) \<Rightarrow> (fx, Some (Inr r)))))"

section \<open>The fetch core\<close>

definition FETCH_DEFAULT_TIMEOUT_MS :: int where "FETCH_DEFAULT_TIMEOUT_MS = 15000"
definition FETCH_MAX_TIMEOUT_MS :: int where "FETCH_MAX_TIMEOUT_MS = 30000"
definition DEFAULT_MAX_BYTES :: int where "DEFAULT_MAX_BYTES = 500000"
definition MAX_MAX_BYTES :: int where "MAX_MAX_BYTES = 1000000"
definition DEFAULT_MAX_REDIRECTS :: int where "DEFAULT_MAX_REDIRECTS = 3"
definition MAX_MAX_REDIRECTS :: int where "MAX_MAX_REDIRECTS = 5"

record fetch_input =
  url :: string
  f_timeoutMs :: int
  maxBytes :: int
  maxRedirects :: int

definition parseFetchToolInput :: "jsval \<Rightarrow> code + fetch_input" where
  "parseFetchToolInput raw =
     (if \<not> isPlainObject raw then Inl INVALID_INPUT
      else if \<not> isString (getProp raw ''url'') \<or> length (strOf (getProp raw ''url'')) = 0
        then Inl INVALID_INPUT
      else
        (case parseBoundedInt (getProp raw ''timeoutMs'') 1 FETCH_MAX_TIMEOUT_MS
                FETCH_DEFAULT_TIMEOUT_MS of
           Inl e \<Rightarrow> Inl e
         | Inr t \<Rightarrow>
        (case parseBoundedInt (getProp raw ''maxBytes'') 1024 MAX_MAX_BYTES
                DEFAULT_MAX_BYTES of
           Inl e \<Rightarrow> Inl e
         | Inr b \<Rightarrow>
        (case parseBoundedInt (getProp raw ''maxRedirects'') 0 MAX_MAX_REDIRECTS
                DEFAULT_MAX_REDIRECTS of
           Inl e \<Rightarrow> Inl e
         | Inr r \<Rightarrow>
             Inr \<lparr> url = strOf (getProp raw ''url''),
                   f_timeoutMs = t,
                   maxBytes = b,
                   maxRedirects = r \<rparr>))))"

subsection \<open>String operations\<close>

text \<open>\<open>s.split(c)\<close> for a one-character separator: never empty, \<open>''.split(c) = ['']\<close>.\<close>

fun splitOn :: "char \<Rightarrow> string \<Rightarrow> string list" where
  "splitOn c [] = [[]]"
| "splitOn c (x # xs) =
     (if x = c then [] # splitOn c xs
      else (x # hd (splitOn c xs)) # tl (splitOn c xs))"

text \<open>\<open>s.includes('::')\<close> and \<open>s.split('::')\<close>: matches are taken from the left.\<close>

fun includesDC :: "string \<Rightarrow> bool" where
  "includesDC (x # y # zs) = ((x = CHR '':'' \<and> y = CHR '':'') \<or> includesDC (y # zs))"
| "includesDC _ = False"

fun splitDC :: "string \<Rightarrow> string list" where
  "splitDC (x # y # zs) =
     (if x = CHR '':'' \<and> y = CHR '':'' then [] # splitDC zs
      else (x # hd (splitDC (y # zs))) # tl (splitDC (y # zs)))"
| "splitDC s = [s]"

text \<open>\<open>s.lastIndexOf(c)\<close>, \<open>s.slice(i)\<close> for \<open>i \<ge> 0\<close> and \<open>s.slice(0, e)\<close>, where a
  negative \<open>e\<close> counts from the end.\<close>

definition lastIndexOf :: "char \<Rightarrow> string \<Rightarrow> int" where
  "lastIndexOf c s =
     (if c \<in> set s then int (length s) - 1 - int (length (takeWhile (\<lambda>x. x \<noteq> c) (rev s)))
      else - 1)"

definition sliceFrom :: "string \<Rightarrow> int \<Rightarrow> string" where
  "sliceFrom s i = drop (nat i) s"

definition sliceTo :: "string \<Rightarrow> int \<Rightarrow> string" where
  "sliceTo s e = (if e < 0 then take (nat (int (length s) + e)) s else take (nat e) s)"

text \<open>\<open>toLowerCase\<close> on the letters A to Z; no other 8-bit code unit becomes a letter
  from a to z, a digit, a colon or a dot.\<close>

definition lowerChar :: "char \<Rightarrow> char" where
  "lowerChar c =
     (if (65::nat) \<le> of_char c \<and> of_char c \<le> (90::nat)
      then char_of (of_char c + (32::nat)) else c)"

definition toLowerCase :: "string \<Rightarrow> string" where
  "toLowerCase s = map lowerChar s"

definition isDigit :: "char \<Rightarrow> bool" where
  "isDigit c = ((48::nat) \<le> of_char c \<and> of_char c \<le> (57::nat))"

definition isHexLower :: "char \<Rightarrow> bool" where
  "isHexLower c = (isDigit c \<or> ((97::nat) \<le> of_char c \<and> of_char c \<le> (102::nat)))"

text \<open>The tests \<open>/^[0-9]{1,3}$/\<close> and \<open>/^[0-9a-f]{1,4}$/\<close>.\<close>

definition matchDec3 :: "string \<Rightarrow> bool" where
  "matchDec3 p = (1 \<le> length p \<and> length p \<le> 3 \<and> (\<forall>c \<in> set p. isDigit c))"

definition matchHex4 :: "string \<Rightarrow> bool" where
  "matchHex4 h = (1 \<le> length h \<and> length h \<le> 4 \<and> (\<forall>c \<in> set h. isHexLower c))"

text \<open>\<open>Number(p)\<close> and \<open>parseInt(h, 16)\<close> on strings that passed those tests.\<close>

definition digitVal :: "char \<Rightarrow> nat" where
  "digitVal c = (if isDigit c then of_char c - 48 else of_char c - 87)"

definition numberOf :: "string \<Rightarrow> nat" where
  "numberOf p = foldl (\<lambda>a c. 10 * a + digitVal c) 0 p"

definition parseHex :: "string \<Rightarrow> nat" where
  "parseHex h = foldl (\<lambda>a c. 16 * a + digitVal c) 0 h"

text \<open>A template literal's \<open>${n}\<close> for a non-negative integer.\<close>

fun showNat :: "nat \<Rightarrow> string" where
  "showNat n =
     (if n < 10 then [char_of (48 + n)]
      else showNat (n div 10) @ [char_of (48 + n mod 10)])"

declare showNat.simps [simp del]

subsection \<open>Address arithmetic\<close>

text \<open>The \<open>for (const p of parts)\<close> loop of \<open>ipv4ToInt\<close>, on 32-bit integers.\<close>

fun ipv4Loop :: "string list \<Rightarrow> 32 word \<Rightarrow> 32 word option" where
  "ipv4Loop [] v = Some v"
| "ipv4Loop (p # ps) v =
     (if \<not> matchDec3 p then None
      else if numberOf p > 255 then None
      else ipv4Loop ps (push_bit 8 v OR word_of_nat (numberOf p)))"

definition ipv4ToInt :: "string \<Rightarrow> 32 word option" where
  "ipv4ToInt ip =
     (if length (splitOn CHR ''.'' ip) \<noteq> 4 then None
      else ipv4Loop (splitOn CHR ''.'' ip) 0)"

text \<open>\<open>raw ? raw.split(':').filter((s) => s.length > 0) : []\<close>, where \<open>raw\<close> may be
  \<open>undefined\<close>.\<close>

definition groupsOf :: "string option \<Rightarrow> string list" where
  "groupsOf raw =
     (case raw of
        None \<Rightarrow> []
      | Some r \<Rightarrow> (if r = [] then [] else filter (\<lambda>s. length s > 0) (splitOn CHR '':'' r)))"

text \<open>
  \<open>ipv6ToBigInt\<close>. When the two embedded hextets are stored at indices 6 and 7 the
  array has exactly eight elements, as the checks before it ensure, so the stores
  overwrite and never extend.
\<close>

definition ipv6ToBigInt :: "string \<Rightarrow> code + nat" where
  "ipv6ToBigInt ip =
     (let input = toLowerCase ip;
          hasEmbeddedIpv4 = (lastIndexOf CHR ''.'' input \<noteq> - 1);
          lastColon = lastIndexOf CHR '':'' input;
          v4Int = ipv4ToInt (sliceFrom input (lastColon + 1))
      in if hasEmbeddedIpv4 \<and> v4Int = None then Inl INVALID_INPUT
      else
        let left = (if hasEmbeddedIpv4 then sliceTo input lastColon @ '':0:0'' else input);
            parts = splitDC left;
            head = groupsOf (Some (hd parts));
            tail = groupsOf (if length parts > 1 then Some (parts ! 1) else None)
        in if \<not> includesDC left \<and> length head + length tail \<noteq> 8 then Inl INVALID_INPUT
        else if \<exists>h \<in> set head. \<not> matchHex4 h then Inl INVALID_INPUT
        else if \<exists>h \<in> set tail. \<not> matchHex4 h then Inl INVALID_INPUT
        else if includesDC left \<and> length head + length tail > 8 then Inl INVALID_INPUT
        else
          let headNums = map parseHex head;
              tailNums = map parseHex tail;
              hextets0 =
                (if includesDC left
                 then headNums @ replicate (8 - (length headNums + length tailNums)) 0 @ tailNums
                 else headNums @ tailNums);
              hextets =
                (if hasEmbeddedIpv4
                 then hextets0[6 := unat (drop_bit 16 (the v4Int) AND 0xffff),
                               7 := unat (the v4Int AND 0xffff)]
                 else hextets0)
          in if length hextets \<noteq> 8 then Inl INVALID_INPUT
             else Inr (foldl (\<lambda>result h. push_bit 16 result + h) 0 hextets))"

definition ipv6InCidr :: "nat \<Rightarrow> nat \<Rightarrow> nat \<Rightarrow> bool" where
  "ipv6InCidr addr prefix bits = (drop_bit (128 - bits) addr = drop_bit (128 - bits) prefix)"

text \<open>The closures \<open>inCidr\<close> and \<open>base\<close> of \<open>isPrivateIp\<close>; shift counts are taken
  modulo 32, as JavaScript does.\<close>

definition inCidr :: "32 word \<Rightarrow> 32 word \<Rightarrow> nat \<Rightarrow> bool" where
  "inCidr v b maskBits =
     (let mask = (if maskBits = 0 then 0
                  else push_bit ((32 - maskBits) mod 32)
                         (drop_bit ((32 - maskBits) mod 32) (NOT 0 :: 32 word)))
      in (v AND mask) = (b AND mask))"

definition base :: "32 word \<Rightarrow> 32 word \<Rightarrow> 32 word \<Rightarrow> 32 word \<Rightarrow> 32 word" where
  "base a b c d = (push_bit 24 a OR push_bit 16 b OR push_bit 8 c OR d)"

definition privateV4 :: "32 word \<Rightarrow> bool" where
  "privateV4 v =
     (inCidr v (base 0 0 0 0) 8 \<or>
      inCidr v (base 10 0 0 0) 8 \<or>
      inCidr v (base 100 64 0 0) 10 \<or>
      inCidr v (base 127 0 0 0) 8 \<or>
      inCidr v (base 169 254 0 0) 16 \<or>
      inCidr v (base 172 16 0 0) 12 \<or>
      inCidr v (base 192 168 0 0) 16 \<or>
      inCidr v (base 192 0 0 0) 24 \<or>
      inCidr v (base 192 0 2 0) 24 \<or>
      inCidr v (base 198 18 0 0) 15 \<or>
      inCidr v (base 198 51 100 0) 24 \<or>
      inCidr v (base 203 0 113 0) 24 \<or>
      inCidr v (base 224 0 0 0) 4 \<or>
      inCidr v (base 240 0 0 0) 4)"

definition fc00 :: nat where "fc00 = 0xfc000000000000000000000000000000"
definition fe80 :: nat where "fe80 = 0xfe800000000000000000000000000000"
definition ff00 :: nat where "ff00 = 0xff000000000000000000000000000000"
definition doc :: nat where "doc = 0x20010db8000000000000000000000000"

definition privateV6 :: "nat \<Rightarrow> bool" where
  "privateV6 addr =
     (ipv6InCidr addr fc00 7 \<or>
      ipv6InCidr addr fe80 10 \<or>
      ipv6InCidr addr ff00 8 \<or>
      ipv6InCidr addr doc 32)"

text \<open>The dotted string that the IPv4-mapped branch builds from the low 32 bits.\<close>

definition ip4String :: "nat \<Rightarrow> string" where
  "ip4String v4 =
     showNat (drop_bit 24 v4 mod 256) @ ''.'' @ showNat (drop_bit 16 v4 mod 256) @ ''.'' @
     showNat (drop_bit 8 v4 mod 256) @ ''.'' @ showNat (v4 mod 256)"

subsection \<open>The tables of the specification\<close>

text \<open>
  The private ranges as the specification lists them, on address values: the block
  \<open>a.b.c.d/n\<close> holds the 32-bit addresses that agree with \<open>a.b.c.d\<close> in their first
  \<open>n\<close> bits, and likewise for a 128-bit prefix. The IPv6 table holds the unspecified
  address, the loopback address, \<open>fc00::/7\<close>, \<open>fe80::/10\<close>, \<open>ff00::/8\<close>,
  \<open>2001:db8::/32\<close>, and the IPv4-mapped addresses \<open>::ffff:a.b.c.d\<close> whose embedded
  address is in the IPv4 table.
\<close>

definition cidr4 :: "nat \<Rightarrow> nat \<Rightarrow> nat \<Rightarrow> nat \<Rightarrow> nat \<Rightarrow> nat \<Rightarrow> bool" where
  "cidr4 a b c d n v =
     (v div 2 ^ (32 - n) = (a * 2 ^ 24 + b * 2 ^ 16 + c * 2 ^ 8 + d) div 2 ^ (32 - n))"

definition tableV4 :: "nat \<Rightarrow> bool" where
  "tableV4 v =
     (cidr4 0 0 0 0 8 v \<or> cidr4 10 0 0 0 8 v \<or> cidr4 100 64 0 0 10 v \<or>
      cidr4 127 0 0 0 8 v \<or> cidr4 169 254 0 0 16 v \<or> cidr4 172 16 0 0 12 v \<or>
      cidr4 192 168 0 0 16 v \<or> cidr4 192 0 0 0 24 v \<or> cidr4 192 0 2 0 24 v \<or>
      cidr4 198 18 0 0 15 v \<or> cidr4 198 51 100 0 24 v \<or> cidr4 203 0 113 0 24 v \<or>
      cidr4 224 0 0 0 4 v \<or> cidr4 240 0 0 0 4 v)"

definition cidr6 :: "nat \<Rightarrow> nat \<Rightarrow> nat \<Rightarrow> bool" where
  "cidr6 prefix n addr = (addr div 2 ^ (128 - n) = prefix div 2 ^ (128 - n))"

definition tableV6 :: "nat \<Rightarrow> bool" where
  "tableV6 addr =
     (addr = 0 \<or> addr = 1 \<or>
      cidr6 (0xfc00 * 2 ^ 112) 7 addr \<or>
      cidr6 (0xfe80 * 2 ^ 112) 10 addr \<or>
      cidr6 (0xff00 * 2 ^ 112) 8 addr \<or>
      cidr6 (0x2001 * 2 ^ 112 + 0x0db8 * 2 ^ 96) 32 addr \<or>
      (addr div 2 ^ 32 = 0xffff \<and> tableV4 (addr mod 2 ^ 32)))"

subsection \<open>The text forms of addresses\<close>

text \<open>
  The address that a string denotes, stated without the parsers of the code. An IPv4
  address is written as four decimal numbers below 256, without leading zeros,
  separated by dots; its value is the base-256 number of the four.
\<close>

definition dottedQuad :: "nat \<times> nat \<times> nat \<times> nat \<Rightarrow> string" where
  "dottedQuad q =
     (case q of (a, b, c, d) \<Rightarrow>
        showNat a @ ''.'' @ showNat b @ ''.'' @ showNat c @ ''.'' @ showNat d)"

definition quadValue :: "nat \<times> nat \<times> nat \<times> nat \<Rightarrow> nat" where
  "quadValue q = (case q of (a, b, c, d) \<Rightarrow> a * 2 ^ 24 + b * 2 ^ 16 + c * 2 ^ 8 + d)"

definition octets :: "nat \<times> nat \<times> nat \<times> nat \<Rightarrow> bool" where
  "octets q = (case q of (a, b, c, d) \<Rightarrow> a < 256 \<and> b < 256 \<and> c < 256 \<and> d < 256)"

text \<open>
  An IPv6 address is written (RFC 4291, section 2.2) as groups of one to four
  hexadecimal digits, in either case, separated by colons: eight groups; or six groups
  and a dotted quad; or, with one run of zero groups replaced by \<open>::\<close>, at most seven
  groups around the \<open>::\<close>, a final dotted quad counting as two. Its value is the
  base-65536 number of its eight 16-bit groups. A hexadecimal digit is given by its
  value and by whether it is written as a capital.
\<close>

definition hexChar :: "nat \<times> bool \<Rightarrow> char" where
  "hexChar d = (if snd d then ''0123456789ABCDEF'' ! fst d else ''0123456789abcdef'' ! fst d)"

definition groupText :: "(nat \<times> bool) list \<Rightarrow> string" where
  "groupText g = map hexChar g"

definition groupValue :: "(nat \<times> bool) list \<Rightarrow> nat" where
  "groupValue g = foldl (\<lambda>r d. 16 * r + fst d) 0 g"

definition hexGroup :: "(nat \<times> bool) list \<Rightarrow> bool" where
  "hexGroup g = (1 \<le> length g \<and> length g \<le> 4 \<and> (\<forall>d \<in> set g. fst d < 16))"

fun joinColon :: "string list \<Rightarrow> string" where
  "joinColon [] = []"
| "joinColon [g] = g"
| "joinColon (g # h # gs) = g @ '':'' @ joinColon (h # gs)"

datatype v6text =
  Full "(nat \<times> bool) list list" "(nat \<times> nat \<times> nat \<times> nat) option"
| Compressed "(nat \<times> bool) list list" "(nat \<times> bool) list list"
    "(nat \<times> nat \<times> nat \<times> nat) option"

definition quadTexts :: "(nat \<times> nat \<times> nat \<times> nat) option \<Rightarrow> string list" where
  "quadTexts q = (case q of None \<Rightarrow> [] | Some x \<Rightarrow> [dottedQuad x])"

definition quadHextets :: "(nat \<times> nat \<times> nat \<times> nat) option \<Rightarrow> nat list" where
  "quadHextets q =
     (case q of None \<Rightarrow> [] | Some (a, b, c, d) \<Rightarrow> [a * 256 + b, c * 256 + d])"

fun v6String :: "v6text \<Rightarrow> string" where
  "v6String (Full gs q) = joinColon (map groupText gs @ quadTexts q)"
| "v6String (Compressed hs ts q) =
     joinColon (map groupText hs) @ ''::'' @ joinColon (map groupText ts @ quadTexts q)"

fun v6Hextets :: "v6text \<Rightarrow> nat list" where
  "v6Hextets (Full gs q) = map groupValue gs @ quadHextets q"
| "v6Hextets (Compressed hs ts q) =
     map groupValue hs
     @ replicate (8 - (length hs + length ts + length (quadHextets q))) 0
     @ map groupValue ts @ quadHextets q"

definition v6Value :: "v6text \<Rightarrow> nat" where
  "v6Value t = foldl (\<lambda>r h. r * 2 ^ 16 + h) 0 (v6Hextets t)"

fun v6Form :: "v6text \<Rightarrow> bool" where
  "v6Form (Full gs q) =
     ((\<forall>g \<in> set gs. hexGroup g) \<and> (\<forall>x \<in> set_option q. octets x)
      \<and> length gs + length (quadHextets q) = 8)"
| "v6Form (Compressed hs ts q) =
     ((\<forall>g \<in> set hs. hexGroup g) \<and> (\<forall>g \<in> set ts. hexGroup g)
      \<and> (\<forall>x \<in> set_option q. octets x)
      \<and> length hs + length ts + length (quadHextets q) \<le> 7)"

subsection \<open>The private-address test\<close>

text \<open>
  \<open>net.isIP\<close> belongs to the platform: it is a parameter, \<open>isIP\<close>, giving 4, 6 or 0.
  \<open>isPrivateIp\<close> calls itself on the dotted string of an IPv4-mapped address; that
  it returns whatever \<open>isIP\<close> answers is proved below, after the definitions.
\<close>

function isPrivateIp :: "(string \<Rightarrow> nat) \<Rightarrow> string \<Rightarrow> code + bool" where
  "isPrivateIp isIP ip =
     (if isIP ip = 4 then
        (case ipv4ToInt ip of
           None \<Rightarrow> Inr True
         | Some v \<Rightarrow> Inr (privateV4 v))
      else if isIP ip = 6 then
        (case ipv6ToBigInt ip of
           Inl e \<Rightarrow> Inl e
         | Inr addr \<Rightarrow>
             (if addr = 0 \<or> addr = 1 then Inr True
              else if drop_bit 32 addr = 0xffff
                then isPrivateIp isIP (ip4String (addr mod 2 ^ 32))
              else Inr (privateV6 addr)))
      else Inr True)"
  by pat_completeness auto

subsection \<open>The network policy\<close>

text \<open>\<open>normalizeHostname\<close>: one final dot is removed, then \<open>toLowerCase\<close>.\<close>

definition normalizeHostname :: "string \<Rightarrow> string" where
  "normalizeHostname hostname =
     toLowerCase (if hostname \<noteq> [] \<and> last hostname = CHR ''.'' then butlast hostname
                  else hostname)"

definition isBlockedHostname :: "string \<Rightarrow> bool" where
  "isBlockedHostname hostname =
     (let h = normalizeHostname hostname
      in if h = ''localhost'' then True
         else endsWith h ''.local'' \<or> endsWith h ''.internal'')"

text \<open>
  What the policy reads of a parsed \<open>URL\<close> object; \<open>href\<close> is its \<open>toString()\<close>.
  The \<open>URL\<close> constructor and the DNS \<open>lookup\<close> are parameters: \<open>parseURL\<close> gives
  \<open>None\<close> where the constructor throws, \<open>lookup\<close> gives \<open>None\<close> where the promise
  rejects and the resolved addresses otherwise.
\<close>

record url_obj =
  protocol :: string
  username :: string
  password :: string
  hostname :: string
  href :: string

fun checkAddrs :: "(string \<Rightarrow> nat) \<Rightarrow> string list \<Rightarrow> code + unit" where
  "checkAddrs isIP [] = Inr ()"
| "checkAddrs isIP (a # as) =
     (case isPrivateIp isIP a of
        Inl e \<Rightarrow> Inl e
      | Inr True \<Rightarrow> Inl SSRF_BLOCKED
      | Inr False \<Rightarrow> checkAddrs isIP as)"

definition assertUrlAllowed ::
  "(string \<Rightarrow> nat) \<Rightarrow> (string \<Rightarrow> url_obj option) \<Rightarrow> (string \<Rightarrow> string list option)
     \<Rightarrow> string \<Rightarrow> code + url_obj" where
  "assertUrlAllowed isIP parseURL lookup urlString =
     (case parseURL urlString of
        None \<Rightarrow> Inl INVALID_URL
      | Some u \<Rightarrow>
          if protocol u \<noteq> ''http:'' \<and> protocol u \<noteq> ''https:'' then Inl INVALID_URL
          else if username u \<noteq> [] \<or> password u \<noteq> [] then Inl INVALID_URL
          else if hostname u = [] then Inl INVALID_URL
          else if isBlockedHostname (hostname u) then Inl SSRF_BLOCKED
          else if isIP (hostname u) \<noteq> 0 then
            (case isPrivateIp isIP (hostname u) of
               Inl e \<Rightarrow> Inl e
             | Inr True \<Rightarrow> Inl SSRF_BLOCKED
             | Inr False \<Rightarrow> Inr u)
          else
            (case lookup (hostname u) of
               None \<Rightarrow> Inl DNS_FAILED
             | Some addrs \<Rightarrow>
                 (case checkAddrs isIP addrs of
                    Inl e \<Rightarrow> Inl e
                  | Inr _ \<Rightarrow> Inr u)))"

subsection \<open>The guarded fetcher\<close>

text \<open>
  A response body is absent, or the sequence of results that \<open>reader.read()\<close> gives
  before \<open>done\<close>: each a chunk of bytes, or no value.

  The \<open>TextDecoder\<close> belongs to the platform. It is an object with a state, so what a
  call returns depends on the chunks it was given before: \<open>decode fed\<close> is what
  \<open>decoder.decode(chunk, { stream: true })\<close> returns when \<open>fed\<close> lists the chunks given
  to the decoder so far, this one last, and \<open>flush fed\<close> is what the closing
  \<open>decoder.decode(undefined, { stream: false })\<close> returns after them. The loop state
  holds \<open>fed\<close> beside \<open>text\<close>, \<open>truncated\<close> and \<open>bytesRead\<close>.
\<close>

record read_state =
  r_text :: utf16
  r_fed :: "bytes list"
  r_truncated :: bool
  r_bytesRead :: int

fun readLoop ::
  "(bytes list \<Rightarrow> utf16) \<Rightarrow> int \<Rightarrow> bytes option list \<Rightarrow> read_state \<Rightarrow> read_state" where
  "readLoop decode maxB [] r = r"
| "readLoop decode maxB (None # rest) r = readLoop decode maxB rest r"
| "readLoop decode maxB (Some v # rest) r =
     (if maxB - r_bytesRead r \<le> 0 then r\<lparr> r_truncated := True \<rparr>
      else if int (length v) > maxB - r_bytesRead r
        then r\<lparr> r_text := r_text r
                          @ decode (r_fed r @ [take (nat (maxB - r_bytesRead r)) v]),
                r_fed := r_fed r @ [take (nat (maxB - r_bytesRead r)) v],
                r_bytesRead := r_bytesRead r + (maxB - r_bytesRead r),
                r_truncated := True \<rparr>
      else readLoop decode maxB rest
             (r\<lparr> r_text := r_text r @ decode (r_fed r @ [v]),
                 r_fed := r_fed r @ [v],
                 r_bytesRead := r_bytesRead r + int (length v) \<rparr>))"

record body_result =
  b_body :: utf16
  b_truncated :: bool
  b_bytesRead :: int

definition readBodyText ::
  "(bytes list \<Rightarrow> utf16) \<Rightarrow> (bytes list \<Rightarrow> utf16) \<Rightarrow> bytes option list option \<Rightarrow> int
     \<Rightarrow> body_result" where
  "readBodyText decode flush body maxB =
     (case body of
        None \<Rightarrow> \<lparr> b_body = [], b_truncated = False, b_bytesRead = 0 \<rparr>
      | Some reads \<Rightarrow>
          (let r = readLoop decode maxB reads
                     \<lparr> r_text = [], r_fed = [], r_truncated = False, r_bytesRead = 0 \<rparr>
           in \<lparr> b_body = r_text r @ flush (r_fed r),
                b_truncated = r_truncated r,
                b_bytesRead = r_bytesRead r \<rparr>))"

text \<open>
  What a fresh decoder returns, call by call, for a sequence of chunks, and with the
  closing call.
\<close>

fun decodeFrom :: "(bytes list \<Rightarrow> utf16) \<Rightarrow> bytes list \<Rightarrow> bytes list \<Rightarrow> utf16" where
  "decodeFrom decode fed [] = []"
| "decodeFrom decode fed (c # cs) = decode (fed @ [c]) @ decodeFrom decode (fed @ [c]) cs"

definition streamDecode ::
  "(bytes list \<Rightarrow> utf16) \<Rightarrow> (bytes list \<Rightarrow> utf16) \<Rightarrow> bytes list \<Rightarrow> utf16" where
  "streamDecode decode flush cs = decodeFrom decode [] cs @ flush cs"

text \<open>The bytes that a sequence of reads delivers.\<close>

definition delivered :: "bytes option list \<Rightarrow> bytes" where
  "delivered reads = concat (map (\<lambda>x. case x of None \<Rightarrow> [] | Some v \<Rightarrow> v) reads)"

definition isRedirectStatus :: "int \<Rightarrow> bool" where
  "isRedirectStatus status =
     (status = 301 \<or> status = 302 \<or> status = 303 \<or> status = 307 \<or> status = 308)"

record response =
  status :: int
  statusText :: string
  ok :: bool
  headers :: "(string \<times> string) list"
  body :: "bytes option list option"

text \<open>\<open>headers.get(name)\<close>, and \<open>headersToRecord\<close> over \<open>headers.entries()\<close>.\<close>

definition headerGet :: "(string \<times> string) list \<Rightarrow> string \<Rightarrow> string option" where
  "headerGet hs name = map_of hs name"

definition headersToRecord :: "(string \<times> string) list \<Rightarrow> (string \<rightharpoonup> string)" where
  "headersToRecord hs = foldl (\<lambda>m (k, v). m(toLowerCase k \<mapsto> v)) Map.empty hs"

text \<open>
  The environment of one call: the platform's \<open>net.isIP\<close>, \<open>URL\<close> and
  \<open>TextDecoder\<close>, and, for each loop iteration, what the DNS lookup and the transport
  answer (\<open>None\<close> where they reject) and whether the caller's signal, if there is one,
  has fired.
\<close>

record fetch_env =
  e_isIP :: "string \<Rightarrow> nat"
  e_parseURL :: "string \<Rightarrow> url_obj option"
  e_resolve :: "string \<Rightarrow> url_obj \<Rightarrow> string option"
  e_lookup :: "nat \<Rightarrow> string \<Rightarrow> string list option"
  e_fetchImpl :: "nat \<Rightarrow> string \<Rightarrow> response option"
  e_fetchIsFunction :: bool
  e_signal :: "(nat \<Rightarrow> bool) option"
  e_decode :: "bytes list \<Rightarrow> utf16"
  e_flush :: "bytes list \<Rightarrow> utf16"

record fetch_outcome =
  o_url :: string
  o_status :: int
  o_statusText :: string
  o_ok :: bool
  o_headers :: "string \<rightharpoonup> string"
  o_body :: utf16
  o_truncated :: bool
  o_bytesRead :: int
  o_redirects :: "(int \<times> string) list"

text \<open>What a call throws: a \<open>ToolError\<close>, or the \<open>TypeError\<close> of \<open>new URL\<close>.\<close>

datatype thrown = ToolError code | TypeError

text \<open>What a call does on the network, in order: the policy check of a URL string in
  iteration \<open>i\<close>, and the GET request issued in iteration \<open>i\<close>.\<close>

datatype net_event = Validate nat string | Request nat string

text \<open>
  The loop of \<open>fetchWithGuards\<close>, with the number of iterations left, the counter
  \<open>i\<close>, \<open>current\<close> and \<open>redirects\<close>; it gives the network events from this iteration
  on and what the call returns or throws.
\<close>

fun fetchLoop ::
  "fetch_env \<Rightarrow> fetch_input \<Rightarrow> nat \<Rightarrow> nat \<Rightarrow> string \<Rightarrow> (int \<times> string) list
     \<Rightarrow> net_event list \<times> (thrown + fetch_outcome)" where
  "fetchLoop env input 0 i current redirects = ([], Inl (ToolError TOO_MANY_REDIRECTS))"
| "fetchLoop env input (Suc n) i current redirects =
     (case assertUrlAllowed (e_isIP env) (e_parseURL env) (e_lookup env i) current of
        Inl c \<Rightarrow> ([Validate i current], Inl (ToolError c))
      | Inr allowedUrl \<Rightarrow>
          if (case e_signal env of None \<Rightarrow> False | Some aborted \<Rightarrow> aborted i)
          then ([Validate i current], Inl (ToolError ABORTED))
          else
            (case e_fetchImpl env i (href allowedUrl) of
               None \<Rightarrow>
                 ([Validate i current, Request i (href allowedUrl)],
                  Inl (ToolError FETCH_FAILED))
             | Some resp \<Rightarrow>
                 if isRedirectStatus (status resp) then
                   (case headerGet (headers resp) ''location'' of
                      None \<Rightarrow>
                        ([Validate i current, Request i (href allowedUrl)],
                         Inl (ToolError FETCH_FAILED))
                    | Some location \<Rightarrow>
                        if location = [] then
                          ([Validate i current, Request i (href allowedUrl)],
                           Inl (ToolError FETCH_FAILED))
                        else
                          (case e_resolve env location allowedUrl of
                             None \<Rightarrow>
                               ([Validate i current, Request i (href allowedUrl)],
                                Inl TypeError)
                           | Some next \<Rightarrow>
                               (case fetchLoop env input n (Suc i) next
                                       (redirects @ [(status resp, next)]) of
                                  (later, res) \<Rightarrow>
                                    (Validate i current # Request i (href allowedUrl) # later,
                                     res))))
                 else
                   (let r = readBodyText (e_decode env) (e_flush env) (body resp) (maxBytes input)
                    in ([Validate i current, Request i (href allowedUrl)],
                        Inr \<lparr> o_url = href allowedUrl,
                              o_status = status resp,
                              o_statusText = statusText resp,
                              o_ok = ok resp,
                              o_headers = headersToRecord (headers resp),
                              o_body = b_body r,
                              o_truncated = b_truncated r,
                              o_bytesRead = b_bytesRead r,
                              o_redirects = redirects \<rparr>))))"

definition fetchWithGuards ::
  "fetch_env \<Rightarrow> fetch_input \<Rightarrow> net_event list \<times> (thrown + fetch_outcome)" where
  "fetchWithGuards env input =
     (if \<not> e_fetchIsFunction env then ([], Inl (ToolError INTERNAL_ERROR))
      else fetchLoop env input (nat (maxRedirects input + 1)) 0 (url input) [])"

section \<open>Invariants and test data\<close>

text \<open>
  What holds of a collector after it has been fed the bytes \<open>acc\<close>, chunk by chunk
  (with no empty chunk, for the second invariant), and of the loop state of the body
  reader likewise.
\<close>

definition collInv :: "nat \<Rightarrow> collector \<Rightarrow> bytes \<Rightarrow> bool" where
  "collInv cap st acc =
     (concat (chunks st) = take cap acc \<and> bytes st = int (min cap (length acc))
      \<and> (cap < length acc \<longrightarrow> truncated st)
      \<and> (truncated st \<longrightarrow> cap \<le> length acc))"

definition collInv2 :: "nat \<Rightarrow> collector \<Rightarrow> bytes \<Rightarrow> bool" where
  "collInv2 cap st acc = (collInv cap st acc \<and> (truncated st \<longrightarrow> cap < length acc))"

definition readInv :: "(bytes list \<Rightarrow> utf16) \<Rightarrow> nat \<Rightarrow> read_state \<Rightarrow> bytes \<Rightarrow> bool" where
  "readInv decode cap r acc =
     (concat (r_fed r) = take cap acc \<and> r_text r = decodeFrom decode [] (r_fed r)
      \<and> r_bytesRead r = int (min cap (length acc))
      \<and> (cap < length acc \<longrightarrow> r_truncated r)
      \<and> (r_truncated r \<longrightarrow> cap \<le> length acc))"

text \<open>
  Test data: a decoder stub that takes every byte for one code unit and holds nothing
  back.
\<close>

definition stub_decode :: "bytes list \<Rightarrow> utf16" where
  "stub_decode fed = map ucast (last fed)"

definition stub_flush :: "bytes list \<Rightarrow> utf16" where
  "stub_flush fed = []"

text \<open>
  Test data: a platform stub that classifies three dotted strings as IPv4, the
  link-local address with a zone identifier \<open>fe80::1%eth0\<close> as IPv6, as \<open>net.isIP\<close>
  does, and anything else as no address; and the parsed form of
  \<open>http://example.com/\<close>.
\<close>

definition decoy_isIP :: "string \<Rightarrow> nat" where
  "decoy_isIP s =
     (if s = ''93.184.216.34'' \<or> s = ''10.0.0.1'' \<or> s = ''127.0.0.1'' then 4
      else if s = ''fe80::1%eth0'' then 6
      else 0)"


text \<open>
  Test data: a public server that answers every request with a redirect to the loopback
  address.
\<close>

definition chain_public :: url_obj where
  "chain_public = \<lparr> protocol = ''http:'', username = [], password = [],
                     hostname = ''93.184.216.34'', href = ''http://93.184.216.34/'' \<rparr>"

definition chain_loopback :: url_obj where
  "chain_loopback = \<lparr> protocol = ''http:'', username = [], password = [],
                       hostname = ''127.0.0.1'', href = ''http://127.0.0.1/'' \<rparr>"

definition chain_env :: fetch_env where
  "chain_env =
     \<lparr> e_isIP = decoy_isIP,
       e_parseURL = (\<lambda>s. if s = ''http://93.184.216.34/'' then Some chain_public
                         else if s = ''http://127.0.0.1/'' then Some chain_loopback
                         else None),
       e_resolve = (\<lambda>location b. Some location),
       e_lookup = (\<lambda>i h. None),
       e_fetchImpl = (\<lambda>i u. Some \<lparr> status = 302, statusText = ''Found'', ok = False,
                                   headers = [(''location'', ''http://127.0.0.1/'')],
                                   body = None \<rparr>),
       e_fetchIsFunction = True,
       e_signal = None,
       e_decode = stub_decode,
       e_flush = stub_flush \<rparr>"

definition chain_input :: fetch_input where
  "chain_input = \<lparr> url = ''http://93.184.216.34/'', f_timeoutMs = 15000,
                    maxBytes = 500000, maxRedirects = 3 \<rparr>"

section \<open>Termination of the private-address test\<close>

text \<open>
  A string that \<open>ipv6ToBigInt\<close> accepts contains a colon, and the dotted string of an
  IPv4-mapped address contains none: the call of \<open>isPrivateIp\<close> on it does not call
  again.
\<close>

lemma lowerChar_colon: "lowerChar c = CHR '':'' \<longleftrightarrow> c = CHR '':''"
proof (cases "(65::nat) \<le> of_char c \<and> of_char c \<le> (90::nat)")
  case True
  then have low: "of_char (lowerChar c) = (of_char c + 32 :: nat)"
    by (simp add: lowerChar_def)
  have "lowerChar c \<noteq> CHR '':''"
  proof
    assume "lowerChar c = CHR '':''"
    then have "(of_char (lowerChar c) :: nat) = 58" by simp
    with low True show False by simp
  qed
  moreover have "c \<noteq> CHR '':''"
  proof
    assume "c = CHR '':''"
    then have "(of_char c :: nat) = 58" by simp
    with True show False by simp
  qed
  ultimately show ?thesis by simp
next
  case False
  then show ?thesis by (auto simp: lowerChar_def)
qed

lemma toLowerCase_colon: "CHR '':'' \<in> set (toLowerCase s) \<longleftrightarrow> CHR '':'' \<in> set s"
proof -
  have "CHR '':'' \<in> lowerChar ` set s \<longleftrightarrow> CHR '':'' \<in> set s"
    using lowerChar_colon by (metis imageE image_eqI)
  then show ?thesis by (simp add: toLowerCase_def)
qed

lemma groupsOf_None: "groupsOf None = []"
  by (simp add: groupsOf_def)

lemma splitOn_absent: "c \<notin> set s \<Longrightarrow> splitOn c s = [s]"
  by (induction s) auto

lemma splitOn_append: "c \<notin> set a \<Longrightarrow> splitOn c (a @ c # b) = a # splitOn c b"
  by (induction a) auto

lemma includesDC_append: "CHR '':'' \<notin> set a \<Longrightarrow> includesDC (a @ b) = includesDC b"
proof (induction a)
  case Nil
  then show ?case by simp
next
  case (Cons x a)
  then show ?case by (cases "a @ b") auto
qed

lemma includesDC_colon: "includesDC s \<Longrightarrow> CHR '':'' \<in> set s"
  by (induction s rule: includesDC.induct) auto

lemma splitDC_absent: "\<not> includesDC s \<Longrightarrow> splitDC s = [s]"
  by (induction s rule: splitDC.induct) auto

lemma lastIndexOf_absent: "c \<notin> set s \<Longrightarrow> lastIndexOf c s = - 1"
  by (simp add: lastIndexOf_def)

lemma lastIndexOf_present: "c \<in> set s \<Longrightarrow> lastIndexOf c s \<noteq> - 1"
proof -
  assume "c \<in> set s"
  then have "c \<in> set (rev s)" by simp
  then have "takeWhile (\<lambda>x. x \<noteq> c) (rev s) \<noteq> rev s"
    by (simp add: takeWhile_eq_all_conv)
  moreover have "length (takeWhile (\<lambda>x. x \<noteq> c) (rev s)) \<le> length (rev s)"
    by (rule length_takeWhile_le)
  ultimately have "length (takeWhile (\<lambda>x. x \<noteq> c) (rev s)) < length (rev s)"
    by (metis le_neq_implies_less takeWhile_eq_take take_all order_refl)
  then show ?thesis using \<open>c \<in> set s\<close> by (simp add: lastIndexOf_def)
qed

lemma ipv6ToBigInt_no_colon:
  assumes "CHR '':'' \<notin> set ip"
  shows "ipv6ToBigInt ip = Inl INVALID_INPUT"
proof -
  let ?input = "toLowerCase ip"
  have nc: "CHR '':'' \<notin> set ?input" using assms by (simp add: toLowerCase_colon)
  have lc: "lastIndexOf CHR '':'' ?input = - 1" using nc by (rule lastIndexOf_absent)
  show ?thesis
  proof (cases "lastIndexOf CHR ''.'' ?input \<noteq> - 1")
    case True
    let ?x = "sliceTo ?input (- 1)"
    let ?left = "?x @ '':0:0''"
    have ncx: "CHR '':'' \<notin> set ?x" using nc by (auto simp: sliceTo_def dest: in_set_takeD)
    have inc: "\<not> includesDC ?left" using ncx by (simp add: includesDC_append)
    have sp: "splitDC ?left = [?left]" using inc by (rule splitDC_absent)
    have "splitOn CHR '':'' ?left = [?x, ''0'', ''0'']"
      using splitOn_append[OF ncx, of "''0:0''"] by simp
    then have "length (groupsOf (Some ?left)) \<le> 3"
      by (simp add: groupsOf_def)
    then show ?thesis using True lc inc sp
      by (simp add: ipv6ToBigInt_def Let_def groupsOf_None)
  next
    case False
    have inc: "\<not> includesDC ?input" using nc includesDC_colon by blast
    have sp: "splitDC ?input = [?input]" using inc by (rule splitDC_absent)
    have "splitOn CHR '':'' ?input = [?input]" using nc by (rule splitOn_absent)
    then have "length (groupsOf (Some ?input)) \<le> 1"
      by (simp add: groupsOf_def)
    then show ?thesis using False inc sp
      by (simp add: ipv6ToBigInt_def Let_def groupsOf_None)
  qed
qed

lemma showNat_digits: "\<forall>c \<in> set (showNat n). isDigit c"
proof (induction n rule: showNat.induct)
  case (1 n)
  have d: "isDigit (char_of (48 + k))" if "k < 10" for k :: nat
    using that by (simp add: isDigit_def)
  show ?case
  proof (cases "n < 10")
    case True
    then show ?thesis using d[of n] by (subst showNat.simps) simp
  next
    case False
    have "n mod 10 < 10" by simp
    then have "isDigit (char_of (48 + n mod 10))" by (rule d)
    then show ?thesis using False "1.IH" by (subst showNat.simps) simp
  qed
qed

lemma isDigit_not_colon: "isDigit c \<Longrightarrow> c \<noteq> CHR '':''"
  by (auto simp: isDigit_def)

lemma showNat_no_colon: "CHR '':'' \<notin> set (showNat n)"
  using showNat_digits isDigit_not_colon by blast

lemma ip4String_no_colon: "CHR '':'' \<notin> set (ip4String v)"
  by (simp add: ip4String_def showNat_no_colon)

termination isPrivateIp
proof (relation "measure (\<lambda>(isIP, ip). if CHR '':'' \<in> set ip then 1 else 0)")
  show "wf (measure (\<lambda>(isIP, ip). if CHR '':'' \<in> set ip then 1 else (0::nat)))" by simp
next
  fix isIP :: "string \<Rightarrow> nat" and ip :: string and addr :: nat
  assume "ipv6ToBigInt ip = Inr addr"
  then have "CHR '':'' \<in> set ip" using ipv6ToBigInt_no_colon by fastforce
  then show "((isIP, ip4String (addr mod 2 ^ 32)), (isIP, ip))
        \<in> measure (\<lambda>(isIP, ip). if CHR '':'' \<in> set ip then 1 else 0)"
    by (simp add: ip4String_no_colon)
qed

declare isPrivateIp.simps [simp del]

section \<open>Properties of the input parsers\<close>

lemmas parser_defs =
  parseExecToolInput_def parseFetchToolInput_def ALLOWED_COMMANDS_def
      validateDisallowedCwdArgs_def EXEC_MAX_TIMEOUT_MS_def EXEC_DEFAULT_TIMEOUT_MS_def
      MAX_MAX_OUTPUT_BYTES_def DEFAULT_MAX_OUTPUT_BYTES_def FETCH_MAX_TIMEOUT_MS_def
      FETCH_DEFAULT_TIMEOUT_MS_def MAX_MAX_BYTES_def DEFAULT_MAX_BYTES_def
      MAX_MAX_REDIRECTS_def DEFAULT_MAX_REDIRECTS_def

lemma parseBoundedInt_range:
  "parseBoundedInt v lo hi d = Inr n \<Longrightarrow> lo \<le> d \<Longrightarrow> d \<le> hi \<Longrightarrow> lo \<le> n \<and> n \<le> hi"
  by (induction v lo hi d rule: parseBoundedInt.induct) (auto split: if_splits)

lemma parseBoundedInt_Inl: "parseBoundedInt v lo hi d = Inl e \<Longrightarrow> e = INVALID_INPUT"
  by (induction v lo hi d rule: parseBoundedInt.induct) (auto split: if_splits)

lemma parseBoundedInt_above:
  "hi < n \<Longrightarrow> parseBoundedInt (JNum (Integer n)) lo hi d = Inl INVALID_INPUT"
  by simp

lemma parseExec_Inr:
  assumes "parseExecToolInput raw = Inr x"
  shows "parseBoundedInt (getProp raw ''timeoutMs'') 1 EXEC_MAX_TIMEOUT_MS EXEC_DEFAULT_TIMEOUT_MS
           = Inr (timeoutMs x)
       \<and> parseBoundedInt (getProp raw ''maxOutputBytes'') 1024 MAX_MAX_OUTPUT_BYTES
           DEFAULT_MAX_OUTPUT_BYTES = Inr (maxOutputBytes x)"
  using assms unfolding parseExecToolInput_def
  by (auto split: if_splits sum.splits)

lemma parseFetch_Inr:
  assumes "parseFetchToolInput raw = Inr y"
  shows "parseBoundedInt (getProp raw ''timeoutMs'') 1 FETCH_MAX_TIMEOUT_MS FETCH_DEFAULT_TIMEOUT_MS
           = Inr (f_timeoutMs y)
       \<and> parseBoundedInt (getProp raw ''maxBytes'') 1024 MAX_MAX_BYTES DEFAULT_MAX_BYTES
           = Inr (maxBytes y)
       \<and> parseBoundedInt (getProp raw ''maxRedirects'') 0 MAX_MAX_REDIRECTS DEFAULT_MAX_REDIRECTS
           = Inr (maxRedirects y)"
  using assms unfolding parseFetchToolInput_def
  by (auto split: if_splits sum.splits)

lemma getProp_other: "k' \<noteq> k \<Longrightarrow> getProp (JObj ((k, v) # fs)) k' = getProp (JObj fs) k'"
  by simp

text \<open>
  C2. The claim: both parsers reject an input that has a field outside the recognised
  set with \<open>INVALID_INPUT\<close>. The parsers read the recognised properties and nothing
  else: a field with any other name changes nothing, the request parses (or fails) as
  it does without that field, although the \<open>inputSchema\<close> of both tools declares
  \<open>additionalProperties: false\<close>. So an exec request with an extra \<open>shell\<close> field and a
  fetch request with an extra \<open>method\<close> field are accepted.
\<close>

theorem unknown_fields_ignored:
  "(k \<notin> {''command'', ''args'', ''stdin'', ''timeoutMs'', ''maxOutputBytes''}
      \<longrightarrow> parseExecToolInput (JObj ((k, v) # fs)) = parseExecToolInput (JObj fs))
   \<and> (k \<notin> {''url'', ''timeoutMs'', ''maxBytes'', ''maxRedirects''}
      \<longrightarrow> parseFetchToolInput (JObj ((k, v) # fs)) = parseFetchToolInput (JObj fs))"
proof -
  have e: "parseExecToolInput (JObj ((k, v) # fs)) = parseExecToolInput (JObj fs)"
    if "k \<notin> {''command'', ''args'', ''stdin'', ''timeoutMs'', ''maxOutputBytes''}"
  proof -
    from that have "getProp (JObj ((k, v) # fs)) ''command'' = getProp (JObj fs) ''command''"
      "getProp (JObj ((k, v) # fs)) ''args'' = getProp (JObj fs) ''args''"
      "getProp (JObj ((k, v) # fs)) ''stdin'' = getProp (JObj fs) ''stdin''"
      "getProp (JObj ((k, v) # fs)) ''timeoutMs'' = getProp (JObj fs) ''timeoutMs''"
      "getProp (JObj ((k, v) # fs)) ''maxOutputBytes'' = getProp (JObj fs) ''maxOutputBytes''"
      by auto
    then show ?thesis
      by (simp only: parseExecToolInput_def isPlainObject.simps)
  qed
  have f: "parseFetchToolInput (JObj ((k, v) # fs)) = parseFetchToolInput (JObj fs)"
    if "k \<notin> {''url'', ''timeoutMs'', ''maxBytes'', ''maxRedirects''}"
  proof -
    from that have "getProp (JObj ((k, v) # fs)) ''url'' = getProp (JObj fs) ''url''"
      "getProp (JObj ((k, v) # fs)) ''timeoutMs'' = getProp (JObj fs) ''timeoutMs''"
      "getProp (JObj ((k, v) # fs)) ''maxBytes'' = getProp (JObj fs) ''maxBytes''"
      "getProp (JObj ((k, v) # fs)) ''maxRedirects'' = getProp (JObj fs) ''maxRedirects''"
      by auto
    then show ?thesis
      by (simp only: parseFetchToolInput_def isPlainObject.simps)
  qed
  from e f show ?thesis by blast
qed

theorem unknown_fields_ignored_witness:
  "parseExecToolInput (JObj [(''shell'', JBool True), (''command'', JStr ''node'')])
     = Inr \<lparr> command = ''node'', args = [], stdin = None,
             timeoutMs = 60000, maxOutputBytes = 200000 \<rparr>
   \<and> parseFetchToolInput (JObj [(''method'', JStr ''POST''), (''url'', JStr ''http://example.com/'')])
     = Inr \<lparr> url = ''http://example.com/'', f_timeoutMs = 15000, maxBytes = 500000,
             maxRedirects = 3 \<rparr>"
proof -
  have k1: "''shell'' \<notin> {''command'', ''args'', ''stdin'', ''timeoutMs'', ''maxOutputBytes''}"
    by simp
  have k2: "''method'' \<notin> {''url'', ''timeoutMs'', ''maxBytes'', ''maxRedirects''}"
    by simp
  have b1: "parseExecToolInput (JObj [(''command'', JStr ''node'')])
     = Inr \<lparr> command = ''node'', args = [], stdin = None,
             timeoutMs = 60000, maxOutputBytes = 200000 \<rparr>"
    by (simp add: parser_defs)
  have b2: "parseFetchToolInput (JObj [(''url'', JStr ''http://example.com/'')])
     = Inr \<lparr> url = ''http://example.com/'', f_timeoutMs = 15000, maxBytes = 500000,
             maxRedirects = 3 \<rparr>"
    by (simp add: parser_defs)
  from unknown_fields_ignored[of "''shell''" "JBool True" "[(''command'', JStr ''node'')]"] k1 b1
  have c1: "parseExecToolInput (JObj [(''shell'', JBool True), (''command'', JStr ''node'')])
     = Inr \<lparr> command = ''node'', args = [], stdin = None,
             timeoutMs = 60000, maxOutputBytes = 200000 \<rparr>"
    by metis
  from unknown_fields_ignored[of "''method''" "JStr ''POST''" "[(''url'', JStr ''http://example.com/'')]"] k2 b2
  have c2: "parseFetchToolInput (JObj [(''method'', JStr ''POST''), (''url'', JStr ''http://example.com/'')])
     = Inr \<lparr> url = ''http://example.com/'', f_timeoutMs = 15000, maxBytes = 500000,
             maxRedirects = 3 \<rparr>"
    by metis
  from c1 c2 show ?thesis by blast
qed

text \<open>
  C3. The claim: a cap above the system maximum is clamped to the maximum. The parsers
  do not clamp: \<open>timeoutMs = 30001\<close> for fetch and \<open>maxOutputBytes = 1000001\<close> for exec
  are rejected with \<open>INVALID_INPUT\<close>, so no effective cap exists for such a request.
\<close>

theorem caps_not_clamped:
  "parseFetchToolInput (JObj [(''url'', JStr ''http://example.com/''),
                              (''timeoutMs'', JNum (Integer 30001))]) = Inl INVALID_INPUT
   \<and> parseExecToolInput (JObj [(''command'', JStr ''node''),
                               (''maxOutputBytes'', JNum (Integer 1000001))]) = Inl INVALID_INPUT"
  by (simp add: parser_defs)

text \<open>
  C3, as amended. Whenever a parser accepts a request, every cap of the parsed command
  lies within its bounds: exec \<open>timeoutMs\<close> in 1..120000 and \<open>maxOutputBytes\<close> in
  1024..1000000; fetch \<open>timeoutMs\<close> in 1..30000, \<open>maxBytes\<close> in 1024..1000000 and
  \<open>maxRedirects\<close> in 0..5. A request whose cap is an integer above the maximum is
  never accepted: the exec parser fails, and the fetch parser fails with
  \<open>INVALID_INPUT\<close>.
\<close>

theorem caps_within_bounds:
  "(parseExecToolInput raw = Inr x \<longrightarrow>
      1 \<le> timeoutMs x \<and> timeoutMs x \<le> 120000 \<and>
      1024 \<le> maxOutputBytes x \<and> maxOutputBytes x \<le> 1000000)
   \<and> (parseFetchToolInput raw = Inr y \<longrightarrow>
      1 \<le> f_timeoutMs y \<and> f_timeoutMs y \<le> 30000 \<and>
      1024 \<le> maxBytes y \<and> maxBytes y \<le> 1000000 \<and>
      0 \<le> maxRedirects y \<and> maxRedirects y \<le> 5)
   \<and> ((getProp raw ''timeoutMs'' = JNum (Integer n) \<and> 120000 < n) \<or>
       (getProp raw ''maxOutputBytes'' = JNum (Integer n) \<and> 1000000 < n)
        \<longrightarrow> isl (parseExecToolInput raw))
   \<and> ((getProp raw ''timeoutMs'' = JNum (Integer n) \<and> 30000 < n) \<or>
       (getProp raw ''maxBytes'' = JNum (Integer n) \<and> 1000000 < n) \<or>
       (getProp raw ''maxRedirects'' = JNum (Integer n) \<and> 5 < n)
        \<longrightarrow> parseFetchToolInput raw = Inl INVALID_INPUT)"
proof -
  have e1: "1 \<le> timeoutMs x \<and> timeoutMs x \<le> 120000 \<and>
      1024 \<le> maxOutputBytes x \<and> maxOutputBytes x \<le> 1000000"
    if a: "parseExecToolInput raw = Inr x"
    using parseExec_Inr[OF a]
      parseBoundedInt_range[of "getProp raw ''timeoutMs''" 1 EXEC_MAX_TIMEOUT_MS
        EXEC_DEFAULT_TIMEOUT_MS "timeoutMs x"]
      parseBoundedInt_range[of "getProp raw ''maxOutputBytes''" 1024 MAX_MAX_OUTPUT_BYTES
        DEFAULT_MAX_OUTPUT_BYTES "maxOutputBytes x"]
    by (simp add: EXEC_MAX_TIMEOUT_MS_def EXEC_DEFAULT_TIMEOUT_MS_def MAX_MAX_OUTPUT_BYTES_def
        DEFAULT_MAX_OUTPUT_BYTES_def)
  have f1: "1 \<le> f_timeoutMs y \<and> f_timeoutMs y \<le> 30000 \<and>
      1024 \<le> maxBytes y \<and> maxBytes y \<le> 1000000 \<and>
      0 \<le> maxRedirects y \<and> maxRedirects y \<le> 5"
    if a: "parseFetchToolInput raw = Inr y"
    using parseFetch_Inr[OF a]
      parseBoundedInt_range[of "getProp raw ''timeoutMs''" 1 FETCH_MAX_TIMEOUT_MS
        FETCH_DEFAULT_TIMEOUT_MS "f_timeoutMs y"]
      parseBoundedInt_range[of "getProp raw ''maxBytes''" 1024 MAX_MAX_BYTES
        DEFAULT_MAX_BYTES "maxBytes y"]
      parseBoundedInt_range[of "getProp raw ''maxRedirects''" 0 MAX_MAX_REDIRECTS
        DEFAULT_MAX_REDIRECTS "maxRedirects y"]
    by (simp add: FETCH_MAX_TIMEOUT_MS_def FETCH_DEFAULT_TIMEOUT_MS_def MAX_MAX_BYTES_def
        DEFAULT_MAX_BYTES_def MAX_MAX_REDIRECTS_def DEFAULT_MAX_REDIRECTS_def)
  have e2: "isl (parseExecToolInput raw)"
    if "(getProp raw ''timeoutMs'' = JNum (Integer n) \<and> 120000 < n) \<or>
       (getProp raw ''maxOutputBytes'' = JNum (Integer n) \<and> 1000000 < n)"
    using that unfolding parseExecToolInput_def
    by (auto simp: EXEC_MAX_TIMEOUT_MS_def MAX_MAX_OUTPUT_BYTES_def split: sum.splits)
  have f2: "parseFetchToolInput raw = Inl INVALID_INPUT"
    if "(getProp raw ''timeoutMs'' = JNum (Integer n) \<and> 30000 < n) \<or>
       (getProp raw ''maxBytes'' = JNum (Integer n) \<and> 1000000 < n) \<or>
       (getProp raw ''maxRedirects'' = JNum (Integer n) \<and> 5 < n)"
    using that unfolding parseFetchToolInput_def
    by (auto simp: FETCH_MAX_TIMEOUT_MS_def MAX_MAX_BYTES_def MAX_MAX_REDIRECTS_def
        split: sum.splits dest: parseBoundedInt_Inl)
  from e1 f1 e2 f2 show ?thesis by blast
qed

theorem caps_within_bounds_witness:
  "parseExecToolInput (JObj [(''command'', JStr ''node''), (''timeoutMs'', JNum (Integer 120000))])
     = Inr \<lparr> command = ''node'', args = [], stdin = None,
             timeoutMs = 120000, maxOutputBytes = 200000 \<rparr>
   \<and> timeoutMs \<lparr> command = ''node'', args = [], stdin = None,
             timeoutMs = 120000, maxOutputBytes = 200000 \<rparr> \<le> 120000
   \<and> parseFetchToolInput (JObj [(''url'', JStr ''http://example.com/''),
                               (''maxRedirects'', JNum (Integer 5))])
     = Inr \<lparr> url = ''http://example.com/'', f_timeoutMs = 15000, maxBytes = 500000,
             maxRedirects = 5 \<rparr>
   \<and> maxRedirects \<lparr> url = ''http://example.com/'', f_timeoutMs = 15000, maxBytes = 500000,
             maxRedirects = 5 \<rparr> \<le> 5
   \<and> isl (parseExecToolInput (JObj [(''command'', JStr ''node''),
                                    (''timeoutMs'', JNum (Integer 120001))]))
   \<and> parseFetchToolInput (JObj [(''url'', JStr ''http://example.com/''),
                               (''maxBytes'', JNum (Integer 1000001))]) = Inl INVALID_INPUT"
proof -
  let ?r1 = "JObj [(''command'', JStr ''node''), (''timeoutMs'', JNum (Integer 120000))]"
  let ?x = "\<lparr> command = ''node'', args = [], stdin = None,
             timeoutMs = 120000, maxOutputBytes = 200000 \<rparr>"
  let ?r2 = "JObj [(''url'', JStr ''http://example.com/''), (''maxRedirects'', JNum (Integer 5))]"
  let ?y = "\<lparr> url = ''http://example.com/'', f_timeoutMs = 15000, maxBytes = 500000,
             maxRedirects = 5 \<rparr>"
  let ?r3 = "JObj [(''command'', JStr ''node''), (''timeoutMs'', JNum (Integer 120001))]"
  let ?r4 = "JObj [(''url'', JStr ''http://example.com/''), (''maxBytes'', JNum (Integer 1000001))]"
  have p1: "parseExecToolInput ?r1 = Inr ?x" by (simp add: parser_defs)
  have p2: "parseFetchToolInput ?r2 = Inr ?y" by (simp add: parser_defs)
  have g3: "getProp ?r3 ''timeoutMs'' = JNum (Integer 120001) \<and> (120000::int) < 120001"
    by simp
  have g4: "getProp ?r4 ''maxBytes'' = JNum (Integer 1000001) \<and> (1000000::int) < 1000001"
    by simp
  from caps_within_bounds[where raw = ?r1 and x = ?x] p1
  have c1: "timeoutMs ?x \<le> 120000" by blast
  from caps_within_bounds[where raw = ?r2 and y = ?y] p2
  have c2: "maxRedirects ?y \<le> 5" by blast
  from caps_within_bounds[where raw = ?r3 and n = 120001] g3
  have c3: "isl (parseExecToolInput ?r3)" by blast
  from caps_within_bounds[where raw = ?r4 and n = 1000001] g4
  have c4: "parseFetchToolInput ?r4 = Inl INVALID_INPUT" by blast
  from p1 c1 p2 c2 c3 c4 show ?thesis by blast
qed

section \<open>Properties of the command policy\<close>

lemma gitLoop_denied: "\<exists>a \<in> set as. gitDenied a \<Longrightarrow> gitLoop as = Inl DISALLOWED_ARGUMENT"
  by (induction as) auto

lemma npmLoop_denied: "\<exists>a \<in> set as. npmDenied a \<Longrightarrow> npmLoop as = Inl DISALLOWED_ARGUMENT"
  by (induction as) auto

lemma npmLoop_location:
  "Suc i < length as \<Longrightarrow> as ! i = ''--location'' \<Longrightarrow> as ! Suc i = ''global''
     \<Longrightarrow> npmLoop as = Inl DISALLOWED_ARGUMENT"
proof (induction as arbitrary: i)
  case Nil
  then show ?case by simp
next
  case (Cons a as)
  show ?case
  proof (cases i)
    case 0
    with Cons.prems obtain b bs where "as = b # bs" "b = ''global''" "a = ''--location''"
      by (cases as) auto
    then show ?thesis by simp
  next
    case (Suc j)
    with Cons.prems have "npmLoop as = Inl DISALLOWED_ARGUMENT"
      by (intro Cons.IH[of j]) auto
    then show ?thesis by simp
  qed
qed

text \<open>
  C7. For \<open>git\<close>, an argument list holding \<open>-C\<close>, \<open>-C<path>\<close>, \<open>--git-dir\<close>,
  \<open>--git-dir=...\<close>, \<open>--work-tree\<close> or \<open>--work-tree=...\<close> anywhere is refused with
  \<open>DISALLOWED_ARGUMENT\<close>; for \<open>npm\<close>, so is one holding \<open>--prefix\<close>, \<open>--prefix=...\<close>,
  \<open>-g\<close>, \<open>--global\<close>, \<open>--location=global\<close>, or \<open>--location\<close> directly followed by
  \<open>global\<close>.
\<close>

theorem disallowed_cwd_args:
  "((\<exists>a \<in> set as. (\<exists>p. a = ''-C'' @ p) \<or> a = ''--git-dir'' \<or> (\<exists>p. a = ''--git-dir='' @ p)
        \<or> a = ''--work-tree'' \<or> (\<exists>p. a = ''--work-tree='' @ p))
      \<longrightarrow> validateDisallowedCwdArgs ''git'' as = Inl DISALLOWED_ARGUMENT)
   \<and> (((\<exists>a \<in> set as. a = ''--prefix'' \<or> (\<exists>p. a = ''--prefix='' @ p) \<or> a = ''-g''
           \<or> a = ''--global'' \<or> a = ''--location=global'')
        \<or> (\<exists>i. Suc i < length as \<and> as ! i = ''--location'' \<and> as ! Suc i = ''global''))
      \<longrightarrow> validateDisallowedCwdArgs ''npm'' as = Inl DISALLOWED_ARGUMENT)"
proof (intro conjI impI)
  assume "\<exists>a \<in> set as. (\<exists>p. a = ''-C'' @ p) \<or> a = ''--git-dir'' \<or> (\<exists>p. a = ''--git-dir='' @ p)
        \<or> a = ''--work-tree'' \<or> (\<exists>p. a = ''--work-tree='' @ p)"
  then obtain a where a: "a \<in> set as" and
    f: "(\<exists>p. a = ''-C'' @ p) \<or> a = ''--git-dir'' \<or> (\<exists>p. a = ''--git-dir='' @ p)
        \<or> a = ''--work-tree'' \<or> (\<exists>p. a = ''--work-tree='' @ p)" by blast
  have "gitDenied a"
  proof -
    consider (c) p where "a = ''-C'' @ p" | (g) "a = ''--git-dir''" | (ge) p where "a = ''--git-dir='' @ p"
      | (w) "a = ''--work-tree''" | (we) p where "a = ''--work-tree='' @ p" using f by blast
    then show ?thesis
    proof cases
      case c
      then show ?thesis by (cases p) (simp_all add: gitDenied_def startsWith_def)
    qed (simp_all add: gitDenied_def startsWith_def)
  qed
  with a have "gitLoop as = Inl DISALLOWED_ARGUMENT" by (blast intro: gitLoop_denied)
  then show "validateDisallowedCwdArgs ''git'' as = Inl DISALLOWED_ARGUMENT"
    by (simp add: validateDisallowedCwdArgs_def)
next
  assume h: "(\<exists>a \<in> set as. a = ''--prefix'' \<or> (\<exists>p. a = ''--prefix='' @ p) \<or> a = ''-g''
           \<or> a = ''--global'' \<or> a = ''--location=global'')
        \<or> (\<exists>i. Suc i < length as \<and> as ! i = ''--location'' \<and> as ! Suc i = ''global'')"
  have "npmLoop as = Inl DISALLOWED_ARGUMENT"
  proof (cases "\<exists>i. Suc i < length as \<and> as ! i = ''--location'' \<and> as ! Suc i = ''global''")
    case True
    then show ?thesis using npmLoop_location by blast
  next
    case False
    with h obtain a where a: "a \<in> set as" and
      f: "a = ''--prefix'' \<or> (\<exists>p. a = ''--prefix='' @ p) \<or> a = ''-g''
           \<or> a = ''--global'' \<or> a = ''--location=global''" by blast
    have "npmDenied a"
    proof -
      consider (p) "a = ''--prefix''" | (pe) q where "a = ''--prefix='' @ q" | (g) "a = ''-g''"
        | (gl) "a = ''--global''" | (l) "a = ''--location=global''" using f by blast
      then show ?thesis
        by cases (simp_all add: npmDenied_def startsWith_def)
    qed
    with a show ?thesis by (blast intro: npmLoop_denied)
  qed
  then show "validateDisallowedCwdArgs ''npm'' as = Inl DISALLOWED_ARGUMENT"
    by (simp add: validateDisallowedCwdArgs_def)
qed

theorem disallowed_cwd_args_witness:
  "validateDisallowedCwdArgs ''git'' [''status'', ''-C/tmp''] = Inl DISALLOWED_ARGUMENT
   \<and> validateDisallowedCwdArgs ''npm'' [''install'', ''--location'', ''global'']
       = Inl DISALLOWED_ARGUMENT"
proof -
  have g: "\<exists>a \<in> set [''status'', ''-C/tmp''].
      (\<exists>p. a = ''-C'' @ p) \<or> a = ''--git-dir'' \<or> (\<exists>p. a = ''--git-dir='' @ p)
        \<or> a = ''--work-tree'' \<or> (\<exists>p. a = ''--work-tree='' @ p)"
  proof -
    have "''-C/tmp'' = ''-C'' @ ''/tmp''" by simp
    then show ?thesis by (metis list.set_intros(1) list.set_intros(2))
  qed
  have n: "Suc 1 < length [''install'', ''--location'', ''global'']
      \<and> [''install'', ''--location'', ''global''] ! 1 = ''--location''
      \<and> [''install'', ''--location'', ''global''] ! Suc 1 = ''global''"
    by simp
  from disallowed_cwd_args[of "[''status'', ''-C/tmp'']"] g
  have c1: "validateDisallowedCwdArgs ''git'' [''status'', ''-C/tmp''] = Inl DISALLOWED_ARGUMENT"
    by blast
  from disallowed_cwd_args[of "[''install'', ''--location'', ''global'']"] n
  have c2: "validateDisallowedCwdArgs ''npm'' [''install'', ''--location'', ''global'']
       = Inl DISALLOWED_ARGUMENT"
    by blast
  from c1 c2 show ?thesis by blast
qed

section \<open>Properties of the process runner\<close>

text \<open>
  C6. An exec request (an object) whose \<open>command\<close> is missing, is not a string, or is
  a string other than \<open>git\<close>, \<open>npm\<close> and \<open>node\<close> fails in the parser with
  \<open>COMMAND_NOT_ALLOWED\<close>, and the handler returns that error having done nothing: no
  process is spawned. The same holds for every failure of the parser: the handler
  returns its code with no effect on the system.
\<close>

theorem command_not_allowed:
  assumes "isPlainObject raw"
    and "\<not> isString (getProp raw ''command'')
         \<or> strOf (getProp raw ''command'') \<notin> {''git'', ''npm'', ''node''}"
  shows "parseExecToolInput raw = Inl COMMAND_NOT_ALLOWED
       \<and> execHandler ''exec'' raw env = ([], Some (Inl COMMAND_NOT_ALLOWED))
       \<and> (\<forall>other c. parseExecToolInput other = Inl c
             \<longrightarrow> execHandler ''exec'' other env = ([], Some (Inl c)))"
proof -
  have p: "parseExecToolInput raw = Inl COMMAND_NOT_ALLOWED"
    using assms by (simp add: parseExecToolInput_def ALLOWED_COMMANDS_def)
  have h: "execHandler ''exec'' other env = ([], Some (Inl c))"
    if "parseExecToolInput other = Inl c" for other c
    using that by (simp add: execHandler_def EXEC_TOOL_NAME_def)
  from p h show ?thesis by blast
qed

theorem command_not_allowed_witness:
  "isPlainObject (JObj [(''command'', JStr ''bash''), (''args'', JArr [JStr ''-lc''])])
   \<and> strOf (getProp (JObj [(''command'', JStr ''bash''), (''args'', JArr [JStr ''-lc''])])
        ''command'') \<notin> {''git'', ''npm'', ''node''}
   \<and> parseExecToolInput (JObj [(''command'', JStr ''bash''), (''args'', JArr [JStr ''-lc''])])
       = Inl COMMAND_NOT_ALLOWED
   \<and> execHandler ''exec'' (JObj [(''command'', JStr ''bash''), (''args'', JArr [JStr ''-lc''])])
         \<lparr> spawnThrows = False, pid = Some 4242, groupKillThrows = False,
           signalAborted = None, events = [ChildClose (Some 0) None], elapsedMs = 1,
           bufferToString = map ucast \<rparr>
       = ([], Some (Inl COMMAND_NOT_ALLOWED))
   \<and> parseExecToolInput JNull = Inl INVALID_INPUT
   \<and> execHandler ''exec'' JNull
         \<lparr> spawnThrows = False, pid = Some 4242, groupKillThrows = False,
           signalAborted = None, events = [ChildClose (Some 0) None], elapsedMs = 1,
           bufferToString = map ucast \<rparr>
       = ([], Some (Inl INVALID_INPUT))"
proof -
  let ?raw = "JObj [(''command'', JStr ''bash''), (''args'', JArr [JStr ''-lc''])]"
  let ?env = "\<lparr> spawnThrows = False, pid = Some 4242, groupKillThrows = False,
           signalAborted = None, events = [ChildClose (Some 0) None], elapsedMs = 1,
           bufferToString = map ucast \<rparr>"
  have a1: "isPlainObject ?raw" by simp
  have a2: "strOf (getProp ?raw ''command'') \<notin> {''git'', ''npm'', ''node''}" by simp
  then have a2': "\<not> isString (getProp ?raw ''command'')
      \<or> strOf (getProp ?raw ''command'') \<notin> {''git'', ''npm'', ''node''}" by blast
  have a3: "parseExecToolInput JNull = Inl INVALID_INPUT"
    by (simp add: parseExecToolInput_def)
  note t = command_not_allowed[OF a1 a2', of ?env]
  from t have c1: "parseExecToolInput ?raw = Inl COMMAND_NOT_ALLOWED" by blast
  from t have c2: "execHandler ''exec'' ?raw ?env = ([], Some (Inl COMMAND_NOT_ALLOWED))"
    by blast
  from t a3 have c3: "execHandler ''exec'' JNull ?env = ([], Some (Inl INVALID_INPUT))"
    by blast
  from a1 a2 c1 c2 a3 c3 show ?thesis by blast
qed

text \<open>
  C9. The claim: when the caller's signal fires before or during execution, the process
  group is killed and the call fails with \<open>ABORTED\<close>. A signal that fires while the
  child runs does kill the process group, but the call then reports how the child
  ended: killed by \<open>SIGKILL\<close>, it closes with no exit code and the call fails with
  \<open>NON_ZERO_EXIT\<close>. Only a signal that has fired before the call gives \<open>ABORTED\<close>.
\<close>

theorem abort_during_run:
  "runExecTool
     \<lparr> command = ''node'', args = [''server.js''], stdin = None,
       timeoutMs = 60000, maxOutputBytes = 200000 \<rparr>
     \<lparr> spawnThrows = False, pid = Some 4242, groupKillThrows = False,
       signalAborted = Some False,
       events = [AbortFired, ChildClose None (Some ''SIGKILL'')],
       elapsedMs = 25, bufferToString = map ucast \<rparr>
   = ([Spawn ''node'' [''server.js''], StdinEnd, KillGroup 4242, ClearTimeout],
      Some (Inl (Failure NON_ZERO_EXIT
        (Some \<lparr> cwd = ''/workspace'', r_command = ''node'', r_args = [''server.js''],
                exitCode = None, signal = Some ''SIGKILL'', timedOut = False,
                durationMs = 25, stdout = [], stderr = [],
                stdoutTruncated = False, stderrTruncated = False \<rparr>))))"
  by (simp add: runExecTool_def killProcessGroup_def createCollector_def collectorText_def
      WORKSPACE_CWD_def)

lemma runEvents_not_ABORTED:
  "runEvents input env st es = (fx, Some (Inl (Failure c d))) \<Longrightarrow> c \<noteq> ABORTED"
  by (induction input env st es rule: runEvents.induct)
     (auto simp: Let_def split: if_splits)

lemma runExecTool_ABORTED_iff:
  assumes "\<not> spawnThrows env"
  shows "(\<exists>fx d. runExecTool input env = (fx, Some (Inl (Failure ABORTED d))))
           \<longleftrightarrow> signalAborted env = Some True"
  using assms by (auto simp: runExecTool_def dest: runEvents_not_ABORTED)

section \<open>Properties of the byte-bounded collectors\<close>

lemma collInv_step:
  assumes "collInv cap st acc"
  shows "collInv cap (onData (int cap) st (Buffer c)) (acc @ c)"
proof (cases "cap \<le> length acc")
  case True
  with assms show ?thesis by (simp add: collInv_def)
next
  case False
  then have lt: "length acc < cap" by simp
  with assms have b: "bytes st = int (length acc)" and col: "concat (chunks st) = acc"
    and tr: "\<not> truncated st"
    by (auto simp: collInv_def)
  show ?thesis
  proof (cases "int (length c) > int cap - bytes st")
    case True
    with b lt have "nat (int cap - bytes st) = cap - length acc" "cap < length acc + length c"
      by auto
    with True b lt col show ?thesis
      by (simp add: collInv_def)
  next
    case False
    with b lt have "length acc + length c \<le> cap" by auto
    with False b lt col tr show ?thesis
      by (simp add: collInv_def)
  qed
qed

lemma collInv_foldl:
  "collInv cap st acc \<Longrightarrow>
     collInv cap (foldl (onData (int cap)) st (map Buffer cs)) (acc @ concat cs)"
proof (induction cs arbitrary: st acc)
  case Nil
  then show ?case by simp
next
  case (Cons c cs)
  from collInv_step[OF Cons.prems, of c]
  have "collInv cap (foldl (onData (int cap)) (onData (int cap) st (Buffer c)) (map Buffer cs))
          ((acc @ c) @ concat cs)"
    by (rule Cons.IH)
  then show ?case by simp
qed

lemma collInv2_step:
  assumes "collInv2 cap st acc" and "c \<noteq> []"
  shows "collInv2 cap (onData (int cap) st (Buffer c)) (acc @ c)"
proof -
  have i: "collInv cap st acc" using assms by (simp add: collInv2_def)
  have s: "collInv cap (onData (int cap) st (Buffer c)) (acc @ c)"
    using i by (rule collInv_step)
  have b: "bytes st = int (min cap (length acc))" using i by (simp add: collInv_def)
  have "truncated (onData (int cap) st (Buffer c)) \<longrightarrow> cap < length (acc @ c)"
  proof (cases "cap \<le> length acc")
    case True
    with assms(2) have "cap < length acc + length c" by (cases c) auto
    then show ?thesis by simp
  next
    case False
    with b assms(1) show ?thesis by (auto simp: collInv2_def)
  qed
  with s show ?thesis by (simp add: collInv2_def)
qed

lemma collInv2_foldl:
  "collInv2 cap st acc \<Longrightarrow> [] \<notin> set cs \<Longrightarrow>
     collInv2 cap (foldl (onData (int cap)) st (map Buffer cs)) (acc @ concat cs)"
proof (induction cs arbitrary: st acc)
  case Nil
  then show ?case by simp
next
  case (Cons c cs)
  from Cons.prems have "c \<noteq> []" "[] \<notin> set cs" by auto
  from collInv2_step[OF Cons.prems(1) this(1)] this(2)
  have "collInv2 cap (foldl (onData (int cap)) (onData (int cap) st (Buffer c)) (map Buffer cs))
          ((acc @ c) @ concat cs)"
    by (rule Cons.IH)
  then show ?case by simp
qed

lemma collInv_init: "collInv cap createCollector []" "collInv2 cap createCollector []"
  by (simp_all add: collInv2_def collInv_def createCollector_def)

lemma delivered_simps:
  "delivered [] = []"
  "delivered (None # rs) = delivered rs"
  "delivered (Some v # rs) = v @ delivered rs"
  by (simp_all add: delivered_def)

lemma decodeFrom_snoc:
  "decodeFrom decode fed (cs @ [c]) = decodeFrom decode fed cs @ decode (fed @ cs @ [c])"
  by (induction cs arbitrary: fed) simp_all

lemma readLoop_inv:
  "concat (r_fed r) = acc \<Longrightarrow> r_text r = decodeFrom decode [] (r_fed r)
     \<Longrightarrow> r_bytesRead r = int (length acc) \<Longrightarrow> \<not> r_truncated r \<Longrightarrow> length acc \<le> cap
     \<Longrightarrow> readInv decode cap (readLoop decode (int cap) reads r) (acc @ delivered reads)
         \<and> (Some [] \<notin> set reads \<longrightarrow> r_truncated (readLoop decode (int cap) reads r)
               \<longrightarrow> cap < length (acc @ delivered reads))"
proof (induction reads arbitrary: r acc)
  case Nil
  then show ?case by (simp add: readInv_def delivered_simps)
next
  case (Cons x reads)
  show ?case
  proof (cases x)
    case None
    from Cons.IH[OF Cons.prems] None show ?thesis by (simp add: delivered_simps)
  next
    case (Some v)
    show ?thesis
    proof (cases "int cap - r_bytesRead r \<le> 0")
      case True
      with Cons.prems have "length acc = cap" by simp
      with True Some Cons.prems show ?thesis
        by (cases v) (simp_all add: readInv_def delivered_simps)
    next
      case nfull: False
      show ?thesis
      proof (cases "int (length v) > int cap - r_bytesRead r")
        case True
        with Cons.prems have "nat (int cap - r_bytesRead r) = cap - length acc"
          "cap < length acc + length v" by auto
        with True nfull Some Cons.prems show ?thesis
          by (simp add: readInv_def delivered_simps decodeFrom_snoc)
      next
        case False
        with Cons.prems have le: "length (acc @ v) \<le> cap" by auto
        let ?r = "r\<lparr> r_text := r_text r @ decode (r_fed r @ [v]),
                     r_fed := r_fed r @ [v],
                     r_bytesRead := r_bytesRead r + int (length v) \<rparr>"
        have "readInv decode cap (readLoop decode (int cap) reads ?r) ((acc @ v) @ delivered reads)
         \<and> (Some [] \<notin> set reads \<longrightarrow> r_truncated (readLoop decode (int cap) reads ?r)
               \<longrightarrow> cap < length ((acc @ v) @ delivered reads))"
          using Cons.prems le by (intro Cons.IH) (simp_all add: decodeFrom_snoc)
        with False nfull Some show ?thesis
          by (simp add: delivered_simps)
      qed
    qed
  qed
qed

text \<open>
  C8. The claim: the collectors keep at most \<open>cap\<close> bytes, cut the chunk that crosses
  the boundary exactly there, keep the prefix, set the truncated flag if and only if
  input beyond the cap was dropped, and give an output whose first bytes are those of
  the input. The flag is also set when nothing is dropped: a body of exactly \<open>cap\<close>
  bytes followed by an empty chunk is read in full, and the reader reports it as
  truncated. (The output is decoded text, not bytes: see the amended statement.)
\<close>

theorem truncated_without_loss:
  "b_truncated (readBodyText stub_decode stub_flush
                  (Some [Some (replicate 1024 0), Some []]) 1024)
   \<and> b_bytesRead (readBodyText stub_decode stub_flush
                  (Some [Some (replicate 1024 0), Some []]) 1024)
       = int (length (delivered [Some (replicate 1024 0), Some []]))
   \<and> \<not> 1024 < length (delivered [Some (replicate 1024 0), Some []])"
  by (simp add: readBodyText_def delivered_def)

text \<open>
  C8, as amended. For every sequence of chunks and every cap, the bytes that the exec
  collector keeps, and the bytes that the body reader hands to its decoder, are exactly
  the first \<open>cap\<close> bytes of the input (all of it when it is shorter): never more than
  \<open>cap\<close>, the chunk that crosses the boundary cut there and its prefix kept. The
  output is the platform's UTF-8 decoding of those bytes: \<open>toString\<close> of them for the
  collector, and for the reader what the streaming decoder returns for chunks that
  concatenate to them. The byte count is the smaller of \<open>cap\<close> and the input length.
  The truncated flag is set whenever input beyond the cap was dropped, and only when
  the cap has been reached; when no chunk is empty it is set only if input was dropped.
\<close>

theorem bounded_collectors:
  "concat (chunks (foldl (onData (int cap)) createCollector (map Buffer cs)))
     = take cap (concat cs)
   \<and> collectorText toString (foldl (onData (int cap)) createCollector (map Buffer cs))
     = toString (take cap (concat cs))
   \<and> bytes (foldl (onData (int cap)) createCollector (map Buffer cs))
       = int (min cap (length (concat cs)))
   \<and> (cap < length (concat cs)
        \<longrightarrow> truncated (foldl (onData (int cap)) createCollector (map Buffer cs)))
   \<and> (truncated (foldl (onData (int cap)) createCollector (map Buffer cs))
        \<longrightarrow> cap \<le> length (concat cs) \<and> ([] \<notin> set cs \<longrightarrow> cap < length (concat cs)))
   \<and> (\<exists>fed. concat fed = take cap (delivered reads)
         \<and> b_body (readBodyText decode flush (Some reads) (int cap))
             = streamDecode decode flush fed)
   \<and> b_bytesRead (readBodyText decode flush (Some reads) (int cap))
       = int (min cap (length (delivered reads)))
   \<and> (cap < length (delivered reads)
        \<longrightarrow> b_truncated (readBodyText decode flush (Some reads) (int cap)))
   \<and> (b_truncated (readBodyText decode flush (Some reads) (int cap))
        \<longrightarrow> cap \<le> length (delivered reads)
            \<and> (Some [] \<notin> set reads \<longrightarrow> cap < length (delivered reads)))"
proof -
  let ?st = "foldl (onData (int cap)) createCollector (map Buffer cs)"
  let ?init = "\<lparr> r_text = [], r_fed = [], r_truncated = False, r_bytesRead = 0 \<rparr>"
  let ?r = "readLoop decode (int cap) reads ?init"
  have c1: "collInv cap ?st (concat cs)"
    using collInv_foldl[OF collInv_init(1), of cap cs] by simp
  have c2: "[] \<notin> set cs \<longrightarrow> truncated ?st \<longrightarrow> cap < length (concat cs)"
    using collInv2_foldl[OF collInv_init(2), of cs cap] by (simp add: collInv2_def)
  have r: "readInv decode cap ?r (delivered reads)
      \<and> (Some [] \<notin> set reads \<longrightarrow> r_truncated ?r \<longrightarrow> cap < length (delivered reads))"
    using readLoop_inv[where r = ?init and acc = "[]" and decode = decode and cap = cap and reads = reads]
    by simp
  have b: "b_body (readBodyText decode flush (Some reads) (int cap))
      = streamDecode decode flush (r_fed ?r)"
    using r by (simp add: readBodyText_def Let_def streamDecode_def readInv_def)
  have f: "concat (r_fed ?r) = take cap (delivered reads)"
    using r by (simp add: readInv_def)
  from f b have e: "\<exists>fed. concat fed = take cap (delivered reads)
         \<and> b_body (readBodyText decode flush (Some reads) (int cap))
             = streamDecode decode flush fed" by blast
  from c1 c2 r e show ?thesis
    by (simp add: collInv_def readInv_def readBodyText_def Let_def collectorText_def)
qed

theorem bounded_collectors_witness:
  "concat (chunks (foldl (onData (int 4)) createCollector (map Buffer [[1, 2, 3], [4, 5, 6]])))
     = [1, 2, 3, 4]
   \<and> truncated (foldl (onData (int 4)) createCollector (map Buffer [[1, 2, 3], [4, 5, 6]]))
   \<and> b_bytesRead (readBodyText stub_decode stub_flush
                    (Some [Some [1, 2, 3], None, Some [4, 5, 6]]) (int 4)) = 4
   \<and> b_truncated (readBodyText stub_decode stub_flush
                    (Some [Some [1, 2, 3], None, Some [4, 5, 6]]) (int 4))"
proof -
  have h1: "4 < length (concat [[1, 2, 3], [4, 5, 6 :: 8 word]])" by simp
  have h2: "4 < length (delivered [Some [1, 2, 3], None, Some [4, 5, 6 :: 8 word]])"
    by (simp add: delivered_def)
  note t = bounded_collectors[where cap = 4 and cs = "[[1, 2, 3], [4, 5, 6]]"
      and reads = "[Some [1, 2, 3], None, Some [4, 5, 6]]"
      and decode = stub_decode and flush = stub_flush]
  from t have "concat (chunks (foldl (onData (int 4)) createCollector
                 (map Buffer [[1, 2, 3], [4, 5, 6]])))
     = take 4 (concat [[1, 2, 3], [4, 5, 6]])" by blast
  then have c1: "concat (chunks (foldl (onData (int 4)) createCollector
                   (map Buffer [[1, 2, 3], [4, 5, 6]])))
     = [1, 2, 3, 4]" by simp
  from t h1 have c2: "truncated (foldl (onData (int 4)) createCollector
                        (map Buffer [[1, 2, 3], [4, 5, 6]]))"
    by blast
  from t have "b_bytesRead (readBodyText stub_decode stub_flush
                    (Some [Some [1, 2, 3], None, Some [4, 5, 6]]) (int 4))
     = int (min 4 (length (delivered [Some [1, 2, 3], None, Some [4, 5, 6 :: 8 word]])))"
    by blast
  then have c3: "b_bytesRead (readBodyText stub_decode stub_flush
                    (Some [Some [1, 2, 3], None, Some [4, 5, 6]]) (int 4)) = 4"
    by (simp add: delivered_def)
  from t h2 have c4: "b_truncated (readBodyText stub_decode stub_flush
                    (Some [Some [1, 2, 3], None, Some [4, 5, 6]]) (int 4))"
    by blast
  from c1 c2 c3 c4 show ?thesis by blast
qed

section \<open>Properties of the private-address test\<close>

subsection \<open>The mask test is the block test\<close>

lemma inCidr_drop_bit:
  assumes "0 < n" "n \<le> 32"
  shows "inCidr v b n \<longleftrightarrow> drop_bit (32 - n) v = drop_bit (32 - n) b"
proof -
  let ?k = "32 - n"
  have k: "(32 - n) mod 32 = ?k" using assms by simp
  let ?m = "push_bit ?k (drop_bit ?k (NOT 0 :: 32 word))"
  have bm: "bit ?m i \<longleftrightarrow> ?k \<le> i \<and> i < 32" for i
    using assms by (auto simp: bit_simps)
  have "(v AND ?m = b AND ?m) \<longleftrightarrow> (\<forall>i. bit (v AND ?m) i = bit (b AND ?m) i)"
  proof
    assume "v AND ?m = b AND ?m"
    then show "\<forall>i. bit (v AND ?m) i = bit (b AND ?m) i" by (simp only:) simp
  next
    assume h: "\<forall>i. bit (v AND ?m) i = bit (b AND ?m) i"
    show "v AND ?m = b AND ?m" by (rule bit_eqI) (use h in blast)
  qed
  also have "\<dots> \<longleftrightarrow> (\<forall>i. ?k \<le> i \<and> i < 32 \<longrightarrow> bit v i = bit b i)"
    unfolding bit_and_iff bm by blast
  also have "\<dots> \<longleftrightarrow> (\<forall>j. bit v (?k + j) = bit b (?k + j))"
  proof
    assume h: "\<forall>i. ?k \<le> i \<and> i < 32 \<longrightarrow> bit v i = bit b i"
    show "\<forall>j. bit v (?k + j) = bit b (?k + j)"
    proof
      fix j
      show "bit v (?k + j) = bit b (?k + j)"
      proof (cases "?k + j < 32")
        case True
        with h show ?thesis by simp
      next
        case False
        then have "\<not> bit v (?k + j)" "\<not> bit b (?k + j)"
          by (auto dest: bit_imp_le_length)
        then show ?thesis by simp
      qed
    qed
  next
    assume h: "\<forall>j. bit v (?k + j) = bit b (?k + j)"
    show "\<forall>i. ?k \<le> i \<and> i < 32 \<longrightarrow> bit v i = bit b i"
    proof (intro allI impI)
      fix i assume "?k \<le> i \<and> i < 32"
      then have "i = ?k + (i - ?k)" by simp
      with h show "bit v i = bit b i" by metis
    qed
  qed
  also have "\<dots> \<longleftrightarrow> drop_bit ?k v = drop_bit ?k b"
  proof
    assume h: "\<forall>j. bit v (?k + j) = bit b (?k + j)"
    show "drop_bit ?k v = drop_bit ?k b"
      by (rule bit_eqI) (simp add: bit_drop_bit_eq h)
  next
    assume h: "drop_bit ?k v = drop_bit ?k b"
    show "\<forall>j. bit v (?k + j) = bit b (?k + j)"
    proof
      fix j
      from h have "bit (drop_bit ?k v) j = bit (drop_bit ?k b) j" by (simp only:)
      then show "bit v (?k + j) = bit b (?k + j)" by (simp add: bit_drop_bit_eq)
    qed
  qed
  finally have "(v AND ?m = b AND ?m) \<longleftrightarrow> drop_bit ?k v = drop_bit ?k b" .
  moreover have "inCidr v b n = (v AND ?m = b AND ?m)"
  proof -
    from assms have "(n = 0) = False" by simp
    then show ?thesis unfolding inCidr_def Let_def k by (simp only: if_False)
  qed
  ultimately show ?thesis by blast
qed

lemma inCidr_unat:
  assumes "0 < n" "n \<le> 32"
  shows "inCidr v b n \<longleftrightarrow> unat v div 2 ^ (32 - n) = unat b div 2 ^ (32 - n)"
proof -
  let ?k = "32 - n"
  have "drop_bit ?k v = drop_bit ?k b \<longleftrightarrow> unat (drop_bit ?k v) = unat (drop_bit ?k b)"
    by (simp only: word_unat_eq_iff)
  also have "\<dots> \<longleftrightarrow> drop_bit ?k (unat v) = drop_bit ?k (unat b)"
    by (simp only: unat_drop_bit_eq)
  also have "\<dots> \<longleftrightarrow> unat v div 2 ^ ?k = unat b div 2 ^ ?k"
    by (simp only: drop_bit_eq_div)
  finally show ?thesis
    using inCidr_drop_bit[OF assms] by blast
qed


subsection \<open>The dotted string of an address parses back to it\<close>

lemma numberOf_snoc: "numberOf (s @ [c]) = 10 * numberOf s + digitVal c"
  by (simp add: numberOf_def)

lemma digitVal_char: "d < 10 \<Longrightarrow> digitVal (char_of (48 + d)) = d"
  by (simp add: digitVal_def isDigit_def)

lemma numberOf_showNat: "numberOf (showNat k) = k"
proof (induction k rule: showNat.induct)
  case (1 n)
  show ?case
  proof (cases "n < 10")
    case True
    then have "showNat n = [char_of (48 + n)]" by (subst showNat.simps) simp
    with True show ?thesis using numberOf_snoc[of "[]" "char_of (48 + n)"]
      by (simp add: digitVal_char numberOf_def)
  next
    case False
    then have "showNat n = showNat (n div 10) @ [char_of (48 + n mod 10)]"
      by (subst showNat.simps) simp
    with False "1.IH" show ?thesis
      by (simp add: numberOf_snoc digitVal_char)
  qed
qed

lemma length_showNat: "k < 1000 \<Longrightarrow> 1 \<le> length (showNat k) \<and> length (showNat k) \<le> 3"
proof -
  assume k: "k < 1000"
  have one: "length (showNat j) = 1" if "j < 10" for j
    using that by (subst showNat.simps) simp
  have two: "length (showNat j) \<le> 2 \<and> 1 \<le> length (showNat j)" if "j < 100" for j
  proof (cases "j < 10")
    case True
    then show ?thesis using one by simp
  next
    case False
    from that have "j div 10 < 10" by simp
    with False one[of "j div 10"] show ?thesis by (subst (1 2) showNat.simps) simp
  qed
  show ?thesis
  proof (cases "k < 10")
    case True
    then show ?thesis using one by simp
  next
    case False
    from k have "k div 10 < 100" by simp
    with False two[of "k div 10"] show ?thesis by (subst (1 2) showNat.simps) simp
  qed
qed

lemma matchDec3_showNat: "k < 256 \<Longrightarrow> matchDec3 (showNat k)"
  using length_showNat[of k] showNat_digits[of k] by (simp add: matchDec3_def)

lemma isDigit_not_dot: "isDigit c \<Longrightarrow> c \<noteq> CHR ''.''"
  by (auto simp: isDigit_def)

lemma showNat_no_dot: "CHR ''.'' \<notin> set (showNat n)"
  using showNat_digits isDigit_not_dot by blast

lemma splitOn_dotted:
  "splitOn CHR ''.'' (showNat a @ ''.'' @ showNat b @ ''.'' @ showNat c @ ''.'' @ showNat d)
     = [showNat a, showNat b, showNat c, showNat d]"
proof -
  have 1: "splitOn CHR ''.'' (showNat d) = [showNat d]"
    by (rule splitOn_absent) (rule showNat_no_dot)
  have 2: "splitOn CHR ''.'' (showNat c @ CHR ''.'' # showNat d) = [showNat c, showNat d]"
    using splitOn_append[OF showNat_no_dot, of c "showNat d"] 1 by simp
  have 3: "splitOn CHR ''.'' (showNat b @ CHR ''.'' # showNat c @ CHR ''.'' # showNat d)
      = [showNat b, showNat c, showNat d]"
    using splitOn_append[OF showNat_no_dot, of b "showNat c @ CHR ''.'' # showNat d"] 2 by simp
  have 4: "splitOn CHR ''.'' (showNat a @ CHR ''.'' # showNat b @ CHR ''.'' # showNat c @ CHR ''.'' # showNat d)
      = [showNat a, showNat b, showNat c, showNat d]"
    using splitOn_append[OF showNat_no_dot, of a
        "showNat b @ CHR ''.'' # showNat c @ CHR ''.'' # showNat d"] 3 by simp
  then show ?thesis by simp
qed

lemma shift_or_octet:
  fixes x :: "32 word"
  assumes "d < 256"
  shows "push_bit 8 x OR word_of_nat d = x * 256 + word_of_nat d"
proof -
  have "\<not> bit (push_bit 8 x) i \<or> \<not> bit (word_of_nat d :: 32 word) i" for i
  proof (cases "i < 8")
    case True
    then show ?thesis by (simp add: bit_push_bit_iff)
  next
    case False
    have "d < 2 ^ i"
    proof -
      from False have "(2::nat) ^ 8 \<le> 2 ^ i" by (intro power_increasing) simp_all
      with assms show ?thesis by simp
    qed
    then have "\<not> bit d i" by (simp add: bit_iff_odd)
    then have "\<not> bit (word_of_nat d :: 32 word) i" by (simp add: bit_of_nat_iff)
    then show ?thesis by simp
  qed
  then have "push_bit 8 x + word_of_nat d = push_bit 8 x OR word_of_nat d"
    by (rule disjunctive_add)
  then show ?thesis by (simp add: push_bit_eq_mult)
qed

lemma ipv4ToInt_ip4String:
  assumes "m < 2 ^ 32"
  shows "ipv4ToInt (ip4String m) = Some (word_of_nat m)"
proof -
  let ?a = "drop_bit 24 m mod 256" and ?b = "drop_bit 16 m mod 256"
  and ?c = "drop_bit 8 m mod 256" and ?d = "m mod 256"
  have lt: "?a < 256" "?b < 256" "?c < 256" "?d < 256" by simp_all
  have sp: "splitOn CHR ''.'' (ip4String m) = [showNat ?a, showNat ?b, showNat ?c, showNat ?d]"
    unfolding ip4String_def by (rule splitOn_dotted)
  have loop: "ipv4Loop [showNat ?a, showNat ?b, showNat ?c, showNat ?d] 0
      = Some (push_bit 8 (push_bit 8 (push_bit 8 (push_bit 8 0 OR word_of_nat ?a)
                OR word_of_nat ?b) OR word_of_nat ?c) OR word_of_nat ?d)"
  proof -
    have nl: "\<not> 255 < k mod 256" for k :: nat
    proof -
      have "k mod 256 < 256" by simp
      then show ?thesis by linarith
    qed
    show ?thesis
      using lt by (simp add: matchDec3_showNat numberOf_showNat nl del: push_bit_of_0)
  qed
  have w1: "(push_bit 8 (push_bit 8 (push_bit 8 (push_bit 8 0 OR word_of_nat ?a)
                OR word_of_nat ?b) OR word_of_nat ?c) OR word_of_nat ?d :: 32 word)
      = word_of_nat (((?a * 256 + ?b) * 256 + ?c) * 256 + ?d)"
    using lt by (simp only: shift_or_octet) simp
  have w2: "((?a * 256 + ?b) * 256 + ?c) * 256 + ?d = m"
  proof -
    define q1 where "q1 = m div 256"
    define q2 where "q2 = q1 div 256"
    define q3 where "q3 = q2 div 256"
    have d8: "drop_bit 8 m = q1" by (simp add: drop_bit_eq_div q1_def)
    have d16: "drop_bit 16 m = q2"
      by (simp add: drop_bit_eq_div q1_def q2_def div_mult2_eq[symmetric])
    have d24: "drop_bit 24 m = q3"
      by (simp add: drop_bit_eq_div q1_def q2_def q3_def div_mult2_eq[symmetric])
    from assms have "q3 < 256"
      unfolding d24[symmetric] drop_bit_eq_div by (simp add: less_mult_imp_div_less)
    then have m3: "q3 mod 256 = q3" by simp
    have e2: "q3 * 256 + q2 mod 256 = q2" unfolding q3_def by (rule div_mult_mod_eq)
    have e1: "q2 * 256 + q1 mod 256 = q1" unfolding q2_def by (rule div_mult_mod_eq)
    have e0: "q1 * 256 + m mod 256 = m" unfolding q1_def by (rule div_mult_mod_eq)
    show ?thesis unfolding d8 d16 d24 m3 e2 e1 e0 ..
  qed
  show ?thesis
    by (simp only: ipv4ToInt_def sp loop w1 w2) simp
qed

subsection \<open>The tables\<close>

lemma replicate_numeral: "replicate (numeral k) x = x # replicate (pred_numeral k) x"
  by (simp add: numeral_eq_Suc)

lemmas str_defs = ipv4ToInt_def matchDec3_def numberOf_def digitVal_def isDigit_def
  ipv6ToBigInt_def toLowerCase_def lowerChar_def lastIndexOf_def sliceFrom_def sliceTo_def
  groupsOf_def matchHex4_def isHexLower_def parseHex_def Let_def replicate_numeral

lemma privateV4_table: "privateV4 v = tableV4 (unat v)"
  by (simp add: privateV4_def tableV4_def cidr4_def inCidr_unat base_def)

lemma privateV6_table:
  "privateV6 addr =
     (cidr6 (0xfc00 * 2 ^ 112) 7 addr \<or> cidr6 (0xfe80 * 2 ^ 112) 10 addr \<or>
      cidr6 (0xff00 * 2 ^ 112) 8 addr \<or> cidr6 (0x2001 * 2 ^ 112 + 0x0db8 * 2 ^ 96) 32 addr)"
  by (simp add: privateV6_def ipv6InCidr_def cidr6_def drop_bit_eq_div
      fc00_def fe80_def ff00_def doc_def)

lemma mapped_small:
  assumes "(addr :: nat) div 2 ^ 32 = 0xffff"
  shows "addr < 2 ^ 48"
proof -
  from assms have "addr div 2 ^ 32 < 65536" by simp
  then have "addr < 65536 * 2 ^ 32" by (simp only: div_less_iff_less_mult zero_less_power zero_less_numeral)
  then show ?thesis by simp
qed

lemma mapped_not_privateV6:
  assumes "(addr :: nat) div 2 ^ 32 = 0xffff"
  shows "\<not> privateV6 addr"
proof -
  from mapped_small[OF assms] have lt: "addr < 2 ^ 48" .
  have z: "addr div 2 ^ k = 0" if "48 \<le> k" for k
  proof -
    from that have "(2::nat) ^ 48 \<le> 2 ^ k" by (intro power_increasing) simp_all
    with lt show ?thesis by simp
  qed
  show ?thesis
    using z[of 121] z[of 118] z[of 120] z[of 96]
    unfolding privateV6_table cidr6_def by simp
qed

lemma isPrivateIp_v4:
  "isIP ip = 4 \<Longrightarrow> ipv4ToInt ip = Some v \<Longrightarrow> isPrivateIp isIP ip = Inr (tableV4 (unat v))"
  by (subst isPrivateIp.simps) (simp add: privateV4_table)

lemma isPrivateIp_v6:
  assumes "isIP ip = 6" and "ipv6ToBigInt ip = Inr addr"
    and "addr div 2 ^ 32 = 0xffff \<longrightarrow> isIP (ip4String (addr mod 2 ^ 32)) = 4"
  shows "isPrivateIp isIP ip = Inr (tableV6 addr)"
proof (cases "addr = 0 \<or> addr = 1")
  case True
  then have "tableV6 addr" by (auto simp: tableV6_def)
  with True assms show ?thesis by (subst isPrivateIp.simps) simp
next
  case n01: False
  show ?thesis
  proof (cases "addr div 2 ^ 32 = 0xffff")
    case True
    let ?m = "addr mod 2 ^ 32"
    have m: "?m < 2 ^ 32" by simp
    from True assms(3) have "isIP (ip4String ?m) = 4" by simp
    then have "isPrivateIp isIP (ip4String ?m) = Inr (tableV4 (unat (word_of_nat ?m :: 32 word)))"
      using ipv4ToInt_ip4String[OF m] by (rule isPrivateIp_v4)
    moreover have "unat (word_of_nat ?m :: 32 word) = ?m"
      using m by (simp add: unat_of_nat take_bit_nat_eq_self)
    moreover have "tableV6 addr = tableV4 ?m"
      using True n01 mapped_not_privateV6[OF True]
      unfolding tableV6_def privateV6_table by blast
    moreover have "isPrivateIp isIP ip = isPrivateIp isIP (ip4String ?m)"
      using assms(1,2) n01 True
      by (subst isPrivateIp.simps) (simp add: drop_bit_eq_div)
    ultimately show ?thesis by simp
  next
    case False
    have "tableV6 addr = privateV6 addr"
      using False n01 unfolding tableV6_def privateV6_table by blast
    moreover have "isPrivateIp isIP ip = Inr (privateV6 addr)"
      using assms(1,2) n01 False
      by (subst isPrivateIp.simps) (simp add: drop_bit_eq_div)
    ultimately show ?thesis by simp
  qed
qed

lemma ipv4ToInt_examples:
  "ipv4ToInt ''127.0.0.1'' = Some 2130706433"
  "ipv4ToInt ''10.0.0.1'' = Some 167772161"
  "ipv4ToInt ''192.168.1.1'' = Some 3232235777"
  "ipv4ToInt ''8.8.8.8'' = Some 134744072"
  by (simp_all add: str_defs)

lemma ipv6ToBigInt_examples:
  "ipv6ToBigInt ''::1'' = Inr 1"
  "ipv6ToBigInt ''fc00::1'' = Inr 0xfc000000000000000000000000000001"
  "ipv6ToBigInt ''fe80::1'' = Inr 0xfe800000000000000000000000000001"
  by (simp_all add: str_defs)


subsection \<open>The text of an address parses to the address\<close>

text \<open>Hexadecimal digits and groups under \<open>toLowerCase\<close>, \<open>/^[0-9a-f]{1,4}$/\<close> and
  \<open>parseInt\<close>.\<close>

lemma below16:
  assumes "v < (16::nat)"
    and "P 0" "P 1" "P 2" "P 3" "P 4" "P 5" "P 6" "P 7"
    and "P 8" "P 9" "P 10" "P 11" "P 12" "P 13" "P 14" "P 15"
  shows "P v"
proof -
  from assms(1) consider "v = 0" | "v = 1" | "v = 2" | "v = 3" | "v = 4" | "v = 5" | "v = 6"
    | "v = 7" | "v = 8" | "v = 9" | "v = 10" | "v = 11" | "v = 12" | "v = 13" | "v = 14"
    | "v = 15"
    by atomize_elim presburger
  then show ?thesis by cases (use assms in simp_all)
qed

lemma hexChar_lower: "v < 16 \<Longrightarrow> lowerChar (hexChar (v, b)) = hexChar (v, False)"
  by (cases b; rule below16[of v]) (simp_all add: hexChar_def lowerChar_def char_of_eq_iff)

lemma hexChar_isHexLower: "v < 16 \<Longrightarrow> isHexLower (hexChar (v, False))"
  by (rule below16[of v]) (simp_all add: hexChar_def isHexLower_def isDigit_def)

lemma hexChar_digitVal: "v < 16 \<Longrightarrow> digitVal (hexChar (v, False)) = v"
  by (rule below16[of v]) (simp_all add: hexChar_def digitVal_def isDigit_def)

lemma isHexLower_plain: "isHexLower c \<Longrightarrow> c \<noteq> CHR '':'' \<and> c \<noteq> CHR ''.''"
  by (auto simp: isHexLower_def isDigit_def)

lemma lowerChar_digit: "isDigit c \<Longrightarrow> lowerChar c = c"
  by (simp add: isDigit_def lowerChar_def)

lemma lowerChar_dot: "lowerChar CHR ''.'' = CHR ''.''"
  by (simp add: lowerChar_def)

lemma toLowerCase_append: "toLowerCase (a @ b) = toLowerCase a @ toLowerCase b"
  by (simp add: toLowerCase_def)

lemma toLowerCase_showNat: "toLowerCase (showNat n) = showNat n"
  unfolding toLowerCase_def
  by (rule map_idI) (use showNat_digits lowerChar_digit in blast)

lemma toLowerCase_Cons: "toLowerCase (c # s) = lowerChar c # toLowerCase s"
  by (simp add: toLowerCase_def)

lemma toLowerCase_Nil: "toLowerCase [] = []"
  by (simp add: toLowerCase_def)

lemma lowerChar_colon_eq: "lowerChar CHR '':'' = CHR '':''"
  by (simp add: lowerChar_def)

lemma toLowerCase_dottedQuad: "toLowerCase (dottedQuad q) = dottedQuad q"
  by (cases q)
    (simp add: dottedQuad_def toLowerCase_append toLowerCase_Cons toLowerCase_showNat
      lowerChar_dot)

lemma toLowerCase_joinColon:
  "toLowerCase (joinColon xs) = joinColon (map toLowerCase xs)"
proof (induction xs rule: joinColon.induct)
  case (3 g h gs)
  then show ?case by (simp add: toLowerCase_append toLowerCase_Cons lowerChar_colon_eq)
qed (simp_all add: toLowerCase_Nil)

lemma group_lower:
  assumes "hexGroup g"
  shows "toLowerCase (groupText g) \<noteq> []"
    and "\<forall>c \<in> set (toLowerCase (groupText g)). isHexLower c"
    and "matchHex4 (toLowerCase (groupText g))"
    and "parseHex (toLowerCase (groupText g)) = groupValue g"
proof -
  have lt: "fst d < 16" if "d \<in> set g" for d using assms that by (simp add: hexGroup_def)
  have low: "toLowerCase (groupText g) = map (\<lambda>d. hexChar (fst d, False)) g"
    unfolding toLowerCase_def groupText_def map_map
  proof (rule map_cong[OF refl])
    fix d assume "d \<in> set g"
    then have "lowerChar (hexChar (fst d, snd d)) = hexChar (fst d, False)"
      using lt hexChar_lower by blast
    then show "(lowerChar \<circ> hexChar) d = hexChar (fst d, False)" by simp
  qed
  from assms show "toLowerCase (groupText g) \<noteq> []"
    by (auto simp: hexGroup_def toLowerCase_def groupText_def)
  show hx: "\<forall>c \<in> set (toLowerCase (groupText g)). isHexLower c"
    unfolding low using lt hexChar_isHexLower by auto
  from assms hx show "matchHex4 (toLowerCase (groupText g))"
    by (simp add: matchHex4_def hexGroup_def toLowerCase_def groupText_def)
  have "foldl (\<lambda>a c. 16 * a + digitVal c) r (map (\<lambda>d. hexChar (fst d, False)) g)
      = foldl (\<lambda>r d. 16 * r + fst d) r g" for r
    using lt
  proof (induction g arbitrary: r)
    case Nil
    then show ?case by simp
  next
    case (Cons d g)
    then show ?case by (simp add: hexChar_digitVal)
  qed
  then show "parseHex (toLowerCase (groupText g)) = groupValue g"
    unfolding low parseHex_def groupValue_def .
qed

text \<open>Groups joined by colons, under \<open>split\<close>, \<open>includes\<close> and \<open>lastIndexOf\<close>.\<close>

lemma joinColon_Cons: "xs \<noteq> [] \<Longrightarrow> joinColon (x # xs) = x @ CHR '':'' # joinColon xs"
  by (cases xs) simp_all

lemma joinColon_append:
  "xs \<noteq> [] \<Longrightarrow> ys \<noteq> [] \<Longrightarrow> joinColon (xs @ ys) = joinColon xs @ CHR '':'' # joinColon ys"
proof (induction xs rule: joinColon.induct)
  case 1
  then show ?case by simp
next
  case (2 g)
  then show ?case by (simp add: joinColon_Cons)
next
  case (3 g h gs)
  then show ?case by simp
qed

lemma joinColon_no_dot:
  "\<forall>x \<in> set xs. CHR ''.'' \<notin> set x \<Longrightarrow> CHR ''.'' \<notin> set (joinColon xs)"
  by (induction xs rule: joinColon.induct) simp_all

lemma splitOn_joinColon:
  "xs \<noteq> [] \<Longrightarrow> \<forall>x \<in> set xs. CHR '':'' \<notin> set x \<Longrightarrow> splitOn CHR '':'' (joinColon xs) = xs"
proof (induction xs rule: joinColon.induct)
  case 1
  then show ?case by simp
next
  case (2 g)
  then show ?case by (simp add: splitOn_absent)
next
  case (3 g h gs)
  then have "splitOn CHR '':'' (joinColon (h # gs)) = h # gs" by simp
  moreover from 3 have "CHR '':'' \<notin> set g" by simp
  ultimately show ?case using splitOn_append[of "CHR '':''" g "joinColon (h # gs)"] by simp
qed

lemma joinColon_eq_Nil:
  "\<forall>x \<in> set xs. x \<noteq> [] \<Longrightarrow> joinColon xs = [] \<longleftrightarrow> xs = []"
  by (induction xs rule: joinColon.induct) simp_all

lemma groupsOf_joinColon:
  assumes "\<forall>x \<in> set xs. x \<noteq> [] \<and> CHR '':'' \<notin> set x"
  shows "groupsOf (Some (joinColon xs)) = xs"
proof (cases "xs = []")
  case True
  then show ?thesis by (simp add: groupsOf_def)
next
  case False
  with assms have "joinColon xs \<noteq> []" by (simp add: joinColon_eq_Nil)
  moreover from False assms have "splitOn CHR '':'' (joinColon xs) = xs"
    by (simp add: splitOn_joinColon)
  moreover from assms have "filter (\<lambda>s. length s > 0) xs = xs"
    by (simp add: filter_id_conv)
  ultimately show ?thesis by (simp add: groupsOf_def)
qed

lemma includesDC_group:
  "x \<noteq> [] \<Longrightarrow> CHR '':'' \<notin> set x \<Longrightarrow> includesDC (x @ CHR '':'' # y # s) = includesDC (CHR '':'' # y # s)"
  by (simp add: includesDC_append)

lemma includesDC_joinColon_tail:
  assumes "\<forall>x \<in> set xs. x \<noteq> [] \<and> CHR '':'' \<notin> set x"
  shows "\<not> includesDC (joinColon xs @ '':'')"
  using assms
proof (induction xs rule: joinColon.induct)
  case 1
  then show ?case by simp
next
  case (2 g)
  then show ?case by (simp add: includesDC_append)
next
  case (3 g h gs)
  then have ih: "\<not> includesDC (joinColon (h # gs) @ '':'')" by simp
  from 3 have h: "h \<noteq> []" "CHR '':'' \<notin> set h" by simp_all
  then obtain c cs where hc: "h = c # cs" and c: "c \<noteq> CHR '':''" by (cases h) auto
  have "joinColon (h # gs) = c # tl (joinColon (h # gs))"
    using hc by (cases gs) simp_all
  then obtain r where r: "joinColon (h # gs) = c # r" by blast
  from 3 have "CHR '':'' \<notin> set g" by simp
  then have "includesDC (joinColon (g # h # gs) @ '':'')
      = includesDC (CHR '':'' # joinColon (h # gs) @ '':'')"
    by (simp add: includesDC_append)
  also have "\<dots> = includesDC (joinColon (h # gs) @ '':'')"
    using r c by simp
  finally show ?case using ih by simp
qed

lemma includesDC_prefix: "includesDC a \<Longrightarrow> includesDC (a @ b)"
proof (induction a rule: includesDC.induct)
  case (1 x y zs)
  then show ?case by auto
qed simp_all

lemma includesDC_joinColon:
  assumes "\<forall>x \<in> set xs. x \<noteq> [] \<and> CHR '':'' \<notin> set x"
  shows "\<not> includesDC (joinColon xs)"
  using includesDC_joinColon_tail[OF assms] includesDC_prefix by blast

lemma includesDC_mid: "includesDC (a @ CHR '':'' # CHR '':'' # b)"
proof (induction a)
  case Nil
  then show ?case by simp
next
  case (Cons x a)
  then show ?case by (cases "a @ CHR '':'' # CHR '':'' # b") auto
qed

lemma splitDC_mid:
  "\<not> includesDC (a @ '':'') \<Longrightarrow> \<not> includesDC b \<Longrightarrow> splitDC (a @ CHR '':'' # CHR '':'' # b) = [a, b]"
proof (induction a)
  case Nil
  then show ?case by (simp add: splitDC_absent)
next
  case (Cons x a)
  show ?case
  proof (cases a)
    case Nil
    with Cons.prems have "x \<noteq> CHR '':''" by simp
    with Nil Cons.prems(2) show ?thesis by (simp add: splitDC_absent)
  next
    case (Cons y a')
    with Cons.prems have nm: "\<not> (x = CHR '':'' \<and> y = CHR '':'')" and "\<not> includesDC (a @ '':'')"
      by auto
    with Cons.IH Cons.prems(2) have "splitDC (a @ CHR '':'' # CHR '':'' # b) = [a, b]" by simp
    with nm Cons show ?thesis by simp
  qed
qed

lemma lastIndexOf_last:
  assumes "c \<notin> set q"
  shows "lastIndexOf c (p @ c # q) = int (length p)"
proof -
  have "takeWhile (\<lambda>x. x \<noteq> c) (rev q @ c # rev p) = rev q"
    using assms by (auto simp: takeWhile_tail)
  then show ?thesis by (simp add: lastIndexOf_def)
qed

text \<open>\<open>ipv6ToBigInt\<close>, once the groups on both sides of \<open>::\<close> are known: without and
  with an embedded dotted quad.\<close>

lemma ipv6ToBigInt_plain:
  assumes inp: "toLowerCase ip = input" and nd: "CHR ''.'' \<notin> set input"
    and hd: "groupsOf (Some (hd (splitDC input))) = head"
    and tl: "groupsOf (if length (splitDC input) > 1 then Some (splitDC input ! 1) else None)
               = tail"
    and mh: "\<forall>h \<in> set head. matchHex4 h" and mt: "\<forall>h \<in> set tail. matchHex4 h"
    and len: "if includesDC input then length head + length tail \<le> 8
              else length head + length tail = 8"
  shows "ipv6ToBigInt ip =
    Inr (foldl (\<lambda>result h. push_bit 16 result + h) 0
          (map parseHex head @ replicate (8 - (length head + length tail)) 0
           @ map parseHex tail))"
proof -
  have ne: "lastIndexOf CHR ''.'' input = - 1" using nd by (rule lastIndexOf_absent)
  have left: "(if lastIndexOf CHR ''.'' input \<noteq> - 1
               then sliceTo input (lastIndexOf CHR '':'' input) @ '':0:0'' else input) = input"
    using ne by simp
  show ?thesis
  proof (cases "includesDC input")
    case True
    with len have "length head + length tail \<le> 8" by simp
    with True show ?thesis
      unfolding ipv6ToBigInt_def Let_def inp left hd tl using ne mh mt by simp
  next
    case False
    with len have "length head + length tail = 8" by simp
    with False show ?thesis
      unfolding ipv6ToBigInt_def Let_def inp left hd tl using ne mh mt by simp
  qed
qed

lemma ipv6ToBigInt_embedded:
  assumes inp: "toLowerCase ip = p @ CHR '':'' # q"
    and nc: "CHR '':'' \<notin> set q" and dot: "CHR ''.'' \<in> set q"
    and v4: "ipv4ToInt q = Some v"
    and hd: "groupsOf (Some (hd (splitDC (p @ '':0:0'')))) = head"
    and tl: "groupsOf (if length (splitDC (p @ '':0:0'')) > 1
                       then Some (splitDC (p @ '':0:0'') ! 1) else None) = tail"
    and mh: "\<forall>h \<in> set head. matchHex4 h" and mt: "\<forall>h \<in> set tail. matchHex4 h"
    and len: "if includesDC (p @ '':0:0'') then length head + length tail \<le> 8
              else length head + length tail = 8"
  shows "ipv6ToBigInt ip =
    Inr (foldl (\<lambda>result h. push_bit 16 result + h) 0
          ((map parseHex head @ replicate (8 - (length head + length tail)) 0
            @ map parseHex tail)
           [6 := unat (drop_bit 16 v AND 0xffff), 7 := unat (v AND 0xffff)]))"
proof -
  let ?input = "p @ CHR '':'' # q"
  have e: "lastIndexOf CHR ''.'' ?input \<noteq> - 1"
    using dot by (intro lastIndexOf_present) simp
  have lc: "lastIndexOf CHR '':'' ?input = int (length p)"
    using nc by (rule lastIndexOf_last)
  have sf: "sliceFrom ?input (int (length p) + 1) = q"
    by (simp add: sliceFrom_def nat_add_distrib)
  have st: "sliceTo ?input (int (length p)) = p"
    by (simp add: sliceTo_def)
  have left: "(if lastIndexOf CHR ''.'' ?input \<noteq> - 1
               then p @ '':0:0'' else ?input) = p @ '':0:0''"
    using e by simp
  show ?thesis
  proof (cases "includesDC (p @ '':0:0'')")
    case True
    with len have "length head + length tail \<le> 8" by simp
    with True show ?thesis
      unfolding ipv6ToBigInt_def Let_def inp lc sf st v4 left hd tl using e mh mt by simp
  next
    case False
    with len have "length head + length tail = 8" by simp
    with False show ?thesis
      unfolding ipv6ToBigInt_def Let_def inp lc sf st v4 left hd tl using e mh mt by simp
  qed
qed

text \<open>The two hextets of the embedded quad, and the dotted quad under \<open>ipv4ToInt\<close>.\<close>

lemma shift_fold:
  "foldl (\<lambda>result h. push_bit 16 result + h) (0::nat) xs = foldl (\<lambda>r h. r * 2 ^ 16 + h) 0 xs"
proof -
  have "(\<lambda>result h. push_bit 16 result + h) = (\<lambda>(r::nat) h. r * 2 ^ 16 + h)"
    by (simp add: push_bit_eq_mult fun_eq_iff)
  then show ?thesis by simp
qed

lemma quad_split:
  assumes "b < 256" "c < 256" "d < (256::nat)"
  shows "(a * 2 ^ 24 + b * 2 ^ 16 + c * 2 ^ 8 + d) div 2 ^ 16 = a * 256 + b"
    and "(a * 2 ^ 24 + b * 2 ^ 16 + c * 2 ^ 8 + d) mod 2 ^ 16 = c * 256 + d"
proof -
  have e: "a * 2 ^ 24 + b * 2 ^ 16 + c * 2 ^ 8 + d = (a * 256 + b) * 65536 + (c * 256 + d)"
    by simp
  from assms have lt: "c * 256 + d < 65536" by simp
  have p: "(2::nat) ^ 16 = 65536" by simp
  have dv: "((a * 256 + b) * 65536 + (c * 256 + d)) div 65536 = a * 256 + b"
    using lt by simp
  have md: "((a * 256 + b) * 65536 + (c * 256 + d)) mod 65536 = c * 256 + d"
    by (simp only: mod_mult_self3 mod_less lt)
  show "(a * 2 ^ 24 + b * 2 ^ 16 + c * 2 ^ 8 + d) div 2 ^ 16 = a * 256 + b"
    by (simp only: e, simp only: p dv)
  show "(a * 2 ^ 24 + b * 2 ^ 16 + c * 2 ^ 8 + d) mod 2 ^ 16 = c * 256 + d"
    by (simp only: e, simp only: p md)
qed

lemma quadValue_bound: "octets q \<Longrightarrow> quadValue q < 2 ^ 32"
  by (cases q) (simp add: octets_def quadValue_def)

lemma quad_hextets:
  assumes "octets (a, b, c, d)"
  shows "unat (drop_bit 16 (word_of_nat (quadValue (a, b, c, d)) :: 32 word) AND 0xffff)
           = a * 256 + b"
    and "unat ((word_of_nat (quadValue (a, b, c, d)) :: 32 word) AND 0xffff) = c * 256 + d"
proof -
  let ?m = "quadValue (a, b, c, d)"
  let ?v = "word_of_nat ?m :: 32 word"
  from assms have o: "a < 256" "b < 256" "c < 256" "d < 256" by (simp_all add: octets_def)
  have m: "?m < 2 ^ 32" using assms by (rule quadValue_bound)
  have u: "unat ?v = ?m" using m by (simp add: unat_of_nat take_bit_nat_eq_self)
  have k: "(0xffff :: 32 word) = mask 16" by (simp add: mask_eq_exp_minus_1)
  have hi: "a * 256 + b < 65536" using o by simp
  have "unat (drop_bit 16 ?v AND 0xffff) = (?m div 2 ^ 16) mod 2 ^ 16"
    unfolding k
    by (simp only: take_bit_eq_mask[symmetric] unsigned_take_bit_eq unat_drop_bit_eq u,
        simp only: take_bit_eq_mod drop_bit_eq_div)
  also have "\<dots> = a * 256 + b"
    using quad_split(1)[OF o(2,3,4), of a] hi by (simp add: quadValue_def)
  finally show "unat (drop_bit 16 ?v AND 0xffff) = a * 256 + b" .
  have "unat (?v AND 0xffff) = ?m mod 2 ^ 16"
    unfolding k
    by (simp only: take_bit_eq_mask[symmetric] unsigned_take_bit_eq u, simp only: take_bit_eq_mod)
  also have "\<dots> = c * 256 + d"
    using quad_split(2)[OF o(2,3,4), of a] by (simp add: quadValue_def)
  finally show "unat (?v AND 0xffff) = c * 256 + d" .
qed

lemma ipv4ToInt_dottedQuad:
  assumes "octets q"
  shows "ipv4ToInt (dottedQuad q) = Some (word_of_nat (quadValue q))"
proof -
  obtain a b c d where q: "q = (a, b, c, d)" by (cases q) auto
  from assms q have lt: "a < 256" "b < 256" "c < 256" "d < 256" by (simp_all add: octets_def)
  have sp: "splitOn CHR ''.'' (dottedQuad q) = [showNat a, showNat b, showNat c, showNat d]"
    unfolding dottedQuad_def q prod.case by (rule splitOn_dotted)
  have nl: "\<not> 255 < k" if "k < 256" for k :: nat using that by simp
  have loop: "ipv4Loop [showNat a, showNat b, showNat c, showNat d] 0
      = Some (push_bit 8 (push_bit 8 (push_bit 8 (push_bit 8 0 OR word_of_nat a)
                OR word_of_nat b) OR word_of_nat c) OR word_of_nat d)"
    using lt by (simp add: matchDec3_showNat numberOf_showNat nl del: push_bit_of_0)
  have w1: "(push_bit 8 (push_bit 8 (push_bit 8 (push_bit 8 0 OR word_of_nat a)
                OR word_of_nat b) OR word_of_nat c) OR word_of_nat d :: 32 word)
      = word_of_nat (((a * 256 + b) * 256 + c) * 256 + d)"
    using lt by (simp only: shift_or_octet) simp
  have w2: "((a * 256 + b) * 256 + c) * 256 + d = quadValue q"
    by (simp add: quadValue_def q)
  show ?thesis
    by (simp only: ipv4ToInt_def sp loop w1 w2) simp
qed

lemma dottedQuad_chars:
  "CHR '':'' \<notin> set (dottedQuad q)" "CHR ''.'' \<in> set (dottedQuad q)"
  by (cases q; simp add: dottedQuad_def showNat_no_colon)+

text \<open>The four shapes of an IPv6 text.\<close>

lemma groups_lower:
  assumes "\<forall>g \<in> set gs. hexGroup g"
  shows "\<forall>x \<in> set (map toLowerCase (map groupText gs)). x \<noteq> [] \<and> CHR '':'' \<notin> set x"
    and "\<forall>x \<in> set (map toLowerCase (map groupText gs)). CHR ''.'' \<notin> set x"
    and "\<forall>x \<in> set (map toLowerCase (map groupText gs)). matchHex4 x"
    and "map parseHex (map toLowerCase (map groupText gs)) = map groupValue gs"
proof -
  have g: "toLowerCase (groupText g) \<noteq> [] \<and> CHR '':'' \<notin> set (toLowerCase (groupText g))
      \<and> CHR ''.'' \<notin> set (toLowerCase (groupText g)) \<and> matchHex4 (toLowerCase (groupText g))
      \<and> parseHex (toLowerCase (groupText g)) = groupValue g" if "g \<in> set gs" for g
  proof -
    from that assms have h: "hexGroup g" by simp
    from group_lower(2)[OF h] isHexLower_plain
    have "CHR '':'' \<notin> set (toLowerCase (groupText g))"
      "CHR ''.'' \<notin> set (toLowerCase (groupText g))" by blast+
    with group_lower(1,3,4)[OF h] show ?thesis by simp
  qed
  show "\<forall>x \<in> set (map toLowerCase (map groupText gs)). x \<noteq> [] \<and> CHR '':'' \<notin> set x"
    using g by simp
  show "\<forall>x \<in> set (map toLowerCase (map groupText gs)). CHR ''.'' \<notin> set x"
    using g by simp
  show "\<forall>x \<in> set (map toLowerCase (map groupText gs)). matchHex4 x"
    using g by simp
  show "map parseHex (map toLowerCase (map groupText gs)) = map groupValue gs"
    using g by simp
qed

lemma zero_group:
  "''0'' \<noteq> []" "CHR '':'' \<notin> set ''0''" "matchHex4 ''0''" "parseHex ''0'' = 0"
  by (simp_all add: matchHex4_def isHexLower_def isDigit_def parseHex_def digitVal_def)

lemma toLowerCase_quadTexts: "map toLowerCase (quadTexts q) = quadTexts q"
  by (cases q) (simp_all add: quadTexts_def toLowerCase_dottedQuad)

lemma lower_Full:
  "toLowerCase (v6String (Full gs q))
     = joinColon (map toLowerCase (map groupText gs) @ quadTexts q)"
  by (simp add: toLowerCase_joinColon toLowerCase_quadTexts)

lemma lower_Compressed:
  "toLowerCase (v6String (Compressed hs ts q))
     = joinColon (map toLowerCase (map groupText hs)) @ CHR '':'' # CHR '':'' #
       joinColon (map toLowerCase (map groupText ts) @ quadTexts q)"
  by (simp add: toLowerCase_joinColon toLowerCase_quadTexts toLowerCase_append
      toLowerCase_Cons lowerChar_colon_eq)

lemma parse_Full_plain:
  assumes "v6Form (Full gs None)"
  shows "ipv6ToBigInt (v6String (Full gs None)) = Inr (v6Value (Full gs None))"
proof -
  let ?G = "map toLowerCase (map groupText gs)"
  from assms have hg: "\<forall>g \<in> set gs. hexGroup g" and len: "length gs = 8"
    by (simp_all add: quadHextets_def)
  note G = groups_lower[OF hg]
  have inp: "toLowerCase (v6String (Full gs None)) = joinColon ?G"
    by (simp only: lower_Full) (simp add: quadTexts_def)
  have nd: "CHR ''.'' \<notin> set (joinColon ?G)" using G(2) by (rule joinColon_no_dot)
  have ndc: "\<not> includesDC (joinColon ?G)" using G(1) by (rule includesDC_joinColon)
  have sp: "splitDC (joinColon ?G) = [joinColon ?G]" using ndc by (rule splitDC_absent)
  have hd: "groupsOf (Some (hd (splitDC (joinColon ?G)))) = ?G"
    unfolding sp using groupsOf_joinColon[OF G(1)] by simp
  have tl: "groupsOf (if length (splitDC (joinColon ?G)) > 1
                      then Some (splitDC (joinColon ?G) ! 1) else None) = []"
    unfolding sp by (simp add: groupsOf_None)
  have l: "if includesDC (joinColon ?G) then length ?G + length ([] :: string list) \<le> 8
           else length ?G + length ([] :: string list) = 8"
    using ndc len by simp
  have "ipv6ToBigInt (v6String (Full gs None)) =
      Inr (foldl (\<lambda>result h. push_bit 16 result + h) 0
            (map parseHex ?G @ replicate (8 - (length ?G + length ([] :: string list))) 0
             @ map parseHex []))"
    by (rule ipv6ToBigInt_plain[OF inp nd hd tl G(3) _ l]) simp
  also have "\<dots> = Inr (v6Value (Full gs None))"
    unfolding shift_fold G(4) using len by (simp add: v6Value_def quadHextets_def)
  finally show ?thesis .
qed

lemma parse_Compressed_plain:
  assumes "v6Form (Compressed hs ts None)"
  shows "ipv6ToBigInt (v6String (Compressed hs ts None)) = Inr (v6Value (Compressed hs ts None))"
proof -
  let ?H = "map toLowerCase (map groupText hs)"
  let ?T = "map toLowerCase (map groupText ts)"
  let ?input = "joinColon ?H @ CHR '':'' # CHR '':'' # joinColon ?T"
  from assms have hh: "\<forall>g \<in> set hs. hexGroup g" and ht: "\<forall>g \<in> set ts. hexGroup g"
    and len: "length hs + length ts \<le> 7"
    by (simp_all add: quadHextets_def)
  note H = groups_lower[OF hh] and T = groups_lower[OF ht]
  have inp: "toLowerCase (v6String (Compressed hs ts None)) = ?input"
    by (simp only: lower_Compressed) (simp add: quadTexts_def)
  have nd: "CHR ''.'' \<notin> set ?input"
    using joinColon_no_dot[OF H(2)] joinColon_no_dot[OF T(2)] by simp
  have dc: "includesDC ?input" by (rule includesDC_mid)
  have sp: "splitDC ?input = [joinColon ?H, joinColon ?T]"
    using includesDC_joinColon_tail[OF H(1)] includesDC_joinColon[OF T(1)] by (rule splitDC_mid)
  have hd: "groupsOf (Some (hd (splitDC ?input))) = ?H"
    unfolding sp using groupsOf_joinColon[OF H(1)] by simp
  have tl: "groupsOf (if length (splitDC ?input) > 1 then Some (splitDC ?input ! 1) else None)
      = ?T"
    unfolding sp using groupsOf_joinColon[OF T(1)] by simp
  have l: "if includesDC ?input then length ?H + length ?T \<le> 8
           else length ?H + length ?T = 8"
    using dc len by simp
  have "ipv6ToBigInt (v6String (Compressed hs ts None)) =
      Inr (foldl (\<lambda>result h. push_bit 16 result + h) 0
            (map parseHex ?H @ replicate (8 - (length ?H + length ?T)) 0 @ map parseHex ?T))"
    by (rule ipv6ToBigInt_plain[OF inp nd hd tl H(3) T(3) l])
  also have "\<dots> = Inr (v6Value (Compressed hs ts None))"
    unfolding shift_fold H(4) T(4) by (simp add: v6Value_def quadHextets_def)
  finally show ?thesis .
qed

lemma update_last_two:
  "length xs = 6 \<Longrightarrow> (xs @ [u, w])[6 := x, 7 := y] = xs @ [x, y]"
  by (simp add: list_update_append)

lemma good_with_zeros:
  assumes "\<forall>x \<in> set xs. x \<noteq> [] \<and> CHR '':'' \<notin> set x" and "\<forall>x \<in> set xs. matchHex4 x"
  shows "\<forall>x \<in> set (xs @ [''0'', ''0'']). x \<noteq> [] \<and> CHR '':'' \<notin> set x"
    and "\<forall>x \<in> set (xs @ [''0'', ''0'']). matchHex4 x"
    and "map parseHex (xs @ [''0'', ''0'']) = map parseHex xs @ [0, 0]"
  using assms zero_group by auto

lemma parse_Full_quad:
  assumes "v6Form (Full gs (Some q))"
  shows "ipv6ToBigInt (v6String (Full gs (Some q))) = Inr (v6Value (Full gs (Some q)))"
proof -
  obtain a b c d where q: "q = (a, b, c, d)" by (cases q) auto
  let ?G = "map toLowerCase (map groupText gs)"
  let ?Gz = "?G @ [''0'', ''0'']"
  let ?Q = "dottedQuad q"
  let ?v = "word_of_nat (quadValue q) :: 32 word"
  from assms have hg: "\<forall>g \<in> set gs. hexGroup g" and oq: "octets q" and len: "length gs = 6"
    by (simp_all add: quadHextets_def q)
  note G = groups_lower[OF hg]
  note G0 = good_with_zeros[OF G(1) G(3)]
  from len have ne: "?G \<noteq> []" by auto
  have j: "joinColon (?G @ [?Q]) = joinColon ?G @ CHR '':'' # ?Q"
    using joinColon_append[OF ne, of "[?Q]"] by simp
  have inp: "toLowerCase (v6String (Full gs (Some q))) = joinColon ?G @ CHR '':'' # ?Q"
    by (simp only: lower_Full quadTexts_def option.case j)
  have left: "joinColon ?G @ '':0:0'' = joinColon ?Gz"
    using joinColon_append[OF ne, of "[''0'', ''0'']"] by simp
  have v4: "ipv4ToInt ?Q = Some ?v" using oq by (rule ipv4ToInt_dottedQuad)
  have ndc: "\<not> includesDC (joinColon ?Gz)" using G0(1) by (rule includesDC_joinColon)
  have sp: "splitDC (joinColon ?Gz) = [joinColon ?Gz]" using ndc by (rule splitDC_absent)
  have hd: "groupsOf (Some (hd (splitDC (joinColon ?G @ '':0:0'')))) = ?Gz"
    unfolding left sp using groupsOf_joinColon[OF G0(1)] by simp
  have tl: "groupsOf (if length (splitDC (joinColon ?G @ '':0:0'')) > 1
                      then Some (splitDC (joinColon ?G @ '':0:0'') ! 1) else None) = []"
    unfolding left sp by (simp add: groupsOf_None)
  have l: "if includesDC (joinColon ?G @ '':0:0'')
           then length ?Gz + length ([] :: string list) \<le> 8
           else length ?Gz + length ([] :: string list) = 8"
    unfolding left using ndc len by simp
  have "ipv6ToBigInt (v6String (Full gs (Some q))) =
      Inr (foldl (\<lambda>result h. push_bit 16 result + h) 0
            ((map parseHex ?Gz @ replicate (8 - (length ?Gz + length ([] :: string list))) 0
              @ map parseHex [])
             [6 := unat (drop_bit 16 ?v AND 0xffff), 7 := unat (?v AND 0xffff)]))"
    by (rule ipv6ToBigInt_embedded[OF inp dottedQuad_chars v4 hd tl G0(2) _ l]) simp
  also have "(map parseHex ?Gz @ replicate (8 - (length ?Gz + length ([] :: string list))) 0
              @ map parseHex [])
             [6 := unat (drop_bit 16 ?v AND 0xffff), 7 := unat (?v AND 0xffff)]
      = map groupValue gs @ [a * 256 + b, c * 256 + d]"
  proof -
    have "map parseHex ?Gz @ replicate (8 - (length ?Gz + length ([] :: string list))) 0
              @ map parseHex [] = map groupValue gs @ [0, 0]"
      unfolding G0(3) G(4) using len by simp
    moreover have "length (map groupValue gs) = 6" using len by simp
    ultimately show ?thesis
      using quad_hextets[OF oq[unfolded q]] by (simp only: update_last_two q)
  qed
  also have "Inr (foldl (\<lambda>result h. push_bit 16 result + h) 0
                (map groupValue gs @ [a * 256 + b, c * 256 + d]))
      = Inr (v6Value (Full gs (Some q)))"
    unfolding shift_fold by (simp add: v6Value_def quadHextets_def q)
  finally show ?thesis .
qed

lemma parse_Compressed_quad:
  assumes "v6Form (Compressed hs ts (Some q))"
  shows "ipv6ToBigInt (v6String (Compressed hs ts (Some q)))
           = Inr (v6Value (Compressed hs ts (Some q)))"
proof -
  obtain a b c d where q: "q = (a, b, c, d)" by (cases q) auto
  let ?H = "map toLowerCase (map groupText hs)"
  let ?T = "map toLowerCase (map groupText ts)"
  let ?Tz = "?T @ [''0'', ''0'']"
  let ?Q = "dottedQuad q"
  let ?v = "word_of_nat (quadValue q) :: 32 word"
  let ?left = "joinColon ?H @ CHR '':'' # CHR '':'' # joinColon ?Tz"
  from assms have hh: "\<forall>g \<in> set hs. hexGroup g" and ht: "\<forall>g \<in> set ts. hexGroup g"
    and oq: "octets q" and len: "length hs + length ts \<le> 5"
    by (simp_all add: quadHextets_def q)
  note H = groups_lower[OF hh] and T = groups_lower[OF ht]
  note T0 = good_with_zeros[OF T(1) T(3)]
  have low: "toLowerCase (v6String (Compressed hs ts (Some q)))
      = joinColon ?H @ CHR '':'' # CHR '':'' # joinColon (?T @ [?Q])"
    by (simp only: lower_Compressed) (simp add: quadTexts_def)
  obtain p where inp: "toLowerCase (v6String (Compressed hs ts (Some q))) = p @ CHR '':'' # ?Q"
    and left: "p @ '':0:0'' = ?left"
  proof (cases "ts = []")
    case True
    show ?thesis
    proof (rule that[of "joinColon ?H @ '':''"])
      show "toLowerCase (v6String (Compressed hs ts (Some q)))
          = (joinColon ?H @ '':'') @ CHR '':'' # ?Q"
        unfolding low using True by simp
      show "(joinColon ?H @ '':'') @ '':0:0'' = ?left"
        using True by simp
    qed
  next
    case False
    then have ne: "?T \<noteq> []" by simp
    have j: "joinColon (?T @ [?Q]) = joinColon ?T @ CHR '':'' # ?Q"
      using joinColon_append[OF ne, of "[?Q]"] by simp
    have jz: "joinColon ?Tz = joinColon ?T @ '':0:0''"
      using joinColon_append[OF ne, of "[''0'', ''0'']"] by simp
    show ?thesis
    proof (rule that[of "joinColon ?H @ CHR '':'' # CHR '':'' # joinColon ?T"])
      show "toLowerCase (v6String (Compressed hs ts (Some q)))
          = (joinColon ?H @ CHR '':'' # CHR '':'' # joinColon ?T) @ CHR '':'' # ?Q"
        unfolding low j by simp
      show "(joinColon ?H @ CHR '':'' # CHR '':'' # joinColon ?T) @ '':0:0'' = ?left"
        unfolding jz by simp
    qed
  qed
  have v4: "ipv4ToInt ?Q = Some ?v" using oq by (rule ipv4ToInt_dottedQuad)
  have dc: "includesDC ?left" by (rule includesDC_mid)
  have sp: "splitDC ?left = [joinColon ?H, joinColon ?Tz]"
    using includesDC_joinColon_tail[OF H(1)] includesDC_joinColon[OF T0(1)] by (rule splitDC_mid)
  have hd: "groupsOf (Some (hd (splitDC (p @ '':0:0'')))) = ?H"
    unfolding left sp using groupsOf_joinColon[OF H(1)] by simp
  have tl: "groupsOf (if length (splitDC (p @ '':0:0'')) > 1
                      then Some (splitDC (p @ '':0:0'') ! 1) else None) = ?Tz"
    unfolding left sp using groupsOf_joinColon[OF T0(1)] by simp
  have l: "if includesDC (p @ '':0:0'') then length ?H + length ?Tz \<le> 8
           else length ?H + length ?Tz = 8"
    unfolding left using dc len by simp
  have "ipv6ToBigInt (v6String (Compressed hs ts (Some q))) =
      Inr (foldl (\<lambda>result h. push_bit 16 result + h) 0
            ((map parseHex ?H @ replicate (8 - (length ?H + length ?Tz)) 0 @ map parseHex ?Tz)
             [6 := unat (drop_bit 16 ?v AND 0xffff), 7 := unat (?v AND 0xffff)]))"
    by (rule ipv6ToBigInt_embedded[OF inp dottedQuad_chars v4 hd tl H(3) T0(2) l])
  also have "(map parseHex ?H @ replicate (8 - (length ?H + length ?Tz)) 0 @ map parseHex ?Tz)
             [6 := unat (drop_bit 16 ?v AND 0xffff), 7 := unat (?v AND 0xffff)]
      = (map groupValue hs @ replicate (8 - (length hs + length ts + 2)) 0 @ map groupValue ts)
        @ [a * 256 + b, c * 256 + d]"
  proof -
    have "map parseHex ?H @ replicate (8 - (length ?H + length ?Tz)) 0 @ map parseHex ?Tz
        = (map groupValue hs @ replicate (8 - (length hs + length ts + 2)) 0
           @ map groupValue ts) @ [0, 0]"
      unfolding T0(3) H(4) T(4) by simp
    moreover have "length (map groupValue hs @ replicate (8 - (length hs + length ts + 2)) 0
           @ map groupValue ts) = 6" using len by simp
    ultimately show ?thesis
      using quad_hextets[OF oq[unfolded q]] by (simp only: update_last_two q)
  qed
  also have "Inr (foldl (\<lambda>result h. push_bit 16 result + h) 0
                ((map groupValue hs @ replicate (8 - (length hs + length ts + 2)) 0
                  @ map groupValue ts) @ [a * 256 + b, c * 256 + d]))
      = Inr (v6Value (Compressed hs ts (Some q)))"
    unfolding shift_fold by (simp add: v6Value_def quadHextets_def q)
  finally show ?thesis .
qed

lemma ipv6ToBigInt_v6String: "v6Form t \<Longrightarrow> ipv6ToBigInt (v6String t) = Inr (v6Value t)"
proof (cases t)
  case (Full gs q)
  assume "v6Form t"
  with Full show ?thesis using parse_Full_plain parse_Full_quad by (cases q) simp_all
next
  case (Compressed hs ts q)
  assume "v6Form t"
  with Compressed show ?thesis
    using parse_Compressed_plain parse_Compressed_quad by (cases q) simp_all
qed

lemma isPrivateIp_dottedQuad:
  assumes "octets q" and "isIP (dottedQuad q) = 4"
  shows "isPrivateIp isIP (dottedQuad q) = Inr (tableV4 (quadValue q))"
proof -
  have "unat (word_of_nat (quadValue q) :: 32 word) = quadValue q"
    using quadValue_bound[OF assms(1)] by (simp add: unat_of_nat take_bit_nat_eq_self)
  then show ?thesis
    using isPrivateIp_v4[of isIP _ _, OF assms(2) ipv4ToInt_dottedQuad[OF assms(1)]] by simp
qed

lemma isPrivateIp_v6String:
  assumes "v6Form t" and "isIP (v6String t) = 6"
    and "v6Value t div 2 ^ 32 = 0xffff \<longrightarrow> isIP (ip4String (v6Value t mod 2 ^ 32)) = 4"
  shows "isPrivateIp isIP (v6String t) = Inr (tableV6 (v6Value t))"
  using assms(2) ipv6ToBigInt_v6String[OF assms(1)] assms(3) by (rule isPrivateIp_v6)

lemma scoped_address: "isPrivateIp decoy_isIP ''fe80::1%eth0'' = Inl INVALID_INPUT"
proof -
  have "ipv6ToBigInt ''fe80::1%eth0'' = Inl INVALID_INPUT" by (simp add: str_defs)
  then show ?thesis
    by (subst isPrivateIp.simps) (simp add: decoy_isIP_def)
qed


text \<open>
  C4. The claim: for every IP address string, \<open>isPrivateIp\<close> returns true if and only
  if the address lies in the tables. The link-local address \<open>fe80::1\<close> written with a
  zone identifier, \<open>fe80::1%eth0\<close>, is classified as IPv6 by \<open>net.isIP\<close> and lies in
  \<open>fe80::/10\<close>; \<open>ipv6ToBigInt\<close> rejects the text and \<open>isPrivateIp\<close> throws
  \<open>INVALID_INPUT\<close>: it does not return true.
\<close>

theorem scoped_address_throws:
  "decoy_isIP ''fe80::1%eth0'' = 6
   \<and> isPrivateIp decoy_isIP ''fe80::1%eth0'' = Inl INVALID_INPUT
   \<and> isPrivateIp decoy_isIP ''fe80::1%eth0'' \<noteq> Inr True
   \<and> tableV6 0xfe800000000000000000000000000001"
  by (simp add: scoped_address decoy_isIP_def tableV6_def cidr6_def)

lemma text_examples:
  "dottedQuad (8, 8, 8, 8) = ''8.8.8.8''"
  "dottedQuad (172, 16, 0, 1) = ''172.16.0.1''"
  "v6String (Compressed [[(2, False), (6, False), (0, False), (6, False)],
                         [(4, False), (7, False), (0, False), (0, False)]]
               [[(1, False), (1, False), (1, False), (1, False)]] None) = ''2606:4700::1111''"
  "v6String (Compressed [] [[(15, True), (15, False), (15, True), (15, False)]]
               (Some (10, 0, 0, 1))) = ''::FfFf:10.0.0.1''"
  "v6String (Compressed [[(15, False), (14, False), (8, False), (0, False)]] [[(1, False)]] None)
     = ''fe80::1''"
  by (simp_all add: dottedQuad_def quadTexts_def groupText_def hexChar_def showNat.simps
      char_of_eq_iff)

lemma value_examples:
  "quadValue (8, 8, 8, 8) = 134744072"
  "quadValue (172, 16, 0, 1) = 2886729729"
  "v6Value (Compressed [[(2, False), (6, False), (0, False), (6, False)],
                        [(4, False), (7, False), (0, False), (0, False)]]
               [[(1, False), (1, False), (1, False), (1, False)]] None)
     = 0x26064700000000000000000000001111"
  "v6Value (Compressed [] [[(15, True), (15, False), (15, True), (15, False)]]
               (Some (10, 0, 0, 1))) = 0xffff0a000001"
  "v6Value (Compressed [[(15, False), (14, False), (8, False), (0, False)]] [[(1, False)]] None)
     = 0xfe800000000000000000000000000001"
  by (simp_all add: quadValue_def v6Value_def groupValue_def quadHextets_def replicate_numeral)

text \<open>
  C4, as amended. With \<open>isIP\<close> for \<open>net.isIP\<close>: on the dotted-decimal text of an
  IPv4 address that \<open>isIP\<close> classifies as IPv4, \<open>isPrivateIp\<close> returns whether the
  address is in the IPv4 table of the specification; on the text of an IPv6 address
  without a zone identifier, in any of the forms of RFC 4291 (full or compressed,
  hexadecimal digits in either case, with or without a final dotted quad), that \<open>isIP\<close>
  classifies as IPv6, it returns whether the address is in the IPv6 table, an
  IPv4-mapped address being unwrapped and its embedded address looked up in the IPv4
  table (the dotted string built for that is taken to be classified as IPv4). In
  particular it returns true for \<open>127.0.0.1\<close>, \<open>10.0.0.1\<close>, \<open>192.168.1.1\<close>, \<open>::1\<close>,
  \<open>fc00::1\<close> and \<open>fe80::1\<close>, and false for \<open>8.8.8.8\<close>.
\<close>

theorem isPrivateIp_tables:
  "(octets q \<and> isIP (dottedQuad q) = 4
      \<longrightarrow> isPrivateIp isIP (dottedQuad q) = Inr (tableV4 (quadValue q)))
   \<and> (v6Form t \<and> isIP (v6String t) = 6
        \<and> (v6Value t div 2 ^ 32 = 0xffff \<longrightarrow> isIP (ip4String (v6Value t mod 2 ^ 32)) = 4)
      \<longrightarrow> isPrivateIp isIP (v6String t) = Inr (tableV6 (v6Value t)))
   \<and> (isIP ''127.0.0.1'' = 4 \<longrightarrow> isPrivateIp isIP ''127.0.0.1'' = Inr True)
   \<and> (isIP ''10.0.0.1'' = 4 \<longrightarrow> isPrivateIp isIP ''10.0.0.1'' = Inr True)
   \<and> (isIP ''192.168.1.1'' = 4 \<longrightarrow> isPrivateIp isIP ''192.168.1.1'' = Inr True)
   \<and> (isIP ''::1'' = 6 \<longrightarrow> isPrivateIp isIP ''::1'' = Inr True)
   \<and> (isIP ''fc00::1'' = 6 \<longrightarrow> isPrivateIp isIP ''fc00::1'' = Inr True)
   \<and> (isIP ''fe80::1'' = 6 \<longrightarrow> isPrivateIp isIP ''fe80::1'' = Inr True)
   \<and> (isIP ''8.8.8.8'' = 4 \<longrightarrow> isPrivateIp isIP ''8.8.8.8'' = Inr False)"
proof -
  have g4: "isPrivateIp isIP (dottedQuad q) = Inr (tableV4 (quadValue q))"
    if "octets q \<and> isIP (dottedQuad q) = 4"
    using that isPrivateIp_dottedQuad by blast
  have g6: "isPrivateIp isIP (v6String t) = Inr (tableV6 (v6Value t))"
    if "v6Form t \<and> isIP (v6String t) = 6
        \<and> (v6Value t div 2 ^ 32 = 0xffff \<longrightarrow> isIP (ip4String (v6Value t mod 2 ^ 32)) = 4)"
    using that isPrivateIp_v6String by blast
  have a: "isPrivateIp isIP ''127.0.0.1'' = Inr True" if "isIP ''127.0.0.1'' = 4"
    using isPrivateIp_v4[of isIP _ _, OF that ipv4ToInt_examples(1)] by (simp add: tableV4_def cidr4_def)
  have b: "isPrivateIp isIP ''10.0.0.1'' = Inr True" if "isIP ''10.0.0.1'' = 4"
    using isPrivateIp_v4[of isIP _ _, OF that ipv4ToInt_examples(2)] by (simp add: tableV4_def cidr4_def)
  have c: "isPrivateIp isIP ''192.168.1.1'' = Inr True" if "isIP ''192.168.1.1'' = 4"
    using isPrivateIp_v4[of isIP _ _, OF that ipv4ToInt_examples(3)] by (simp add: tableV4_def cidr4_def)
  have d: "isPrivateIp isIP ''8.8.8.8'' = Inr False" if "isIP ''8.8.8.8'' = 4"
    using isPrivateIp_v4[of isIP _ _, OF that ipv4ToInt_examples(4)] by (simp add: tableV4_def cidr4_def)
  have e: "isPrivateIp isIP ''::1'' = Inr True" if "isIP ''::1'' = 6"
    using isPrivateIp_v6[of isIP _ _, OF that ipv6ToBigInt_examples(1)] by (simp add: tableV6_def)
  have f: "isPrivateIp isIP ''fc00::1'' = Inr True" if "isIP ''fc00::1'' = 6"
    using isPrivateIp_v6[of isIP _ _, OF that ipv6ToBigInt_examples(2)]
    by (simp add: tableV6_def cidr6_def)
  have g: "isPrivateIp isIP ''fe80::1'' = Inr True" if "isIP ''fe80::1'' = 6"
    using isPrivateIp_v6[of isIP _ _, OF that ipv6ToBigInt_examples(3)]
    by (simp add: tableV6_def cidr6_def)
  from g4 g6 a b c d e f g show ?thesis by blast
qed

theorem isPrivateIp_tables_witness:
  "isPrivateIp (\<lambda>s. if CHR '':'' \<in> set s then 6 else 4) ''8.8.8.8'' = Inr False
   \<and> isPrivateIp (\<lambda>s. if CHR '':'' \<in> set s then 6 else 4) ''172.16.0.1'' = Inr True
   \<and> isPrivateIp (\<lambda>s. if CHR '':'' \<in> set s then 6 else 4) ''2606:4700::1111'' = Inr False
   \<and> isPrivateIp (\<lambda>s. if CHR '':'' \<in> set s then 6 else 4) ''::FfFf:10.0.0.1'' = Inr True
   \<and> isPrivateIp (\<lambda>s. if CHR '':'' \<in> set s then 6 else 4) ''fe80::1'' = Inr True"
proof -
  let ?isIP = "\<lambda>s :: string. if CHR '':'' \<in> set s then 6 else (4 :: nat)"
  let ?pub = "Compressed [[(2, False), (6, False), (0, False), (6, False)],
                          [(4, False), (7, False), (0, False), (0, False)]]
               [[(1, False), (1, False), (1, False), (1, False)]] None"
  let ?map = "Compressed [] [[(15, True), (15, False), (15, True), (15, False)]]
               (Some (10, 0, 0, 1))"
  let ?ll = "Compressed [[(15, False), (14, False), (8, False), (0, False)]] [[(1, False)]] None"
  have h1: "octets (8, 8, 8, 8) \<and> ?isIP (dottedQuad (8, 8, 8, 8)) = 4"
    by (simp add: octets_def dottedQuad_chars)
  have h2: "octets (172, 16, 0, 1) \<and> ?isIP (dottedQuad (172, 16, 0, 1)) = 4"
    by (simp add: octets_def dottedQuad_chars)
  have h3: "v6Form ?pub \<and> ?isIP (v6String ?pub) = 6
      \<and> (v6Value ?pub div 2 ^ 32 = 0xffff \<longrightarrow> ?isIP (ip4String (v6Value ?pub mod 2 ^ 32)) = 4)"
    by (simp add: text_examples hexGroup_def quadHextets_def ip4String_no_colon)
  have h4: "v6Form ?map \<and> ?isIP (v6String ?map) = 6
      \<and> (v6Value ?map div 2 ^ 32 = 0xffff \<longrightarrow> ?isIP (ip4String (v6Value ?map mod 2 ^ 32)) = 4)"
    by (simp add: text_examples hexGroup_def quadHextets_def octets_def ip4String_no_colon)
  have h5: "v6Form ?ll \<and> ?isIP (v6String ?ll) = 6
      \<and> (v6Value ?ll div 2 ^ 32 = 0xffff \<longrightarrow> ?isIP (ip4String (v6Value ?ll mod 2 ^ 32)) = 4)"
    by (simp add: text_examples hexGroup_def quadHextets_def ip4String_no_colon)
  from isPrivateIp_tables[of "(8, 8, 8, 8)" ?isIP] h1
  have "isPrivateIp ?isIP (dottedQuad (8, 8, 8, 8)) = Inr (tableV4 (quadValue (8, 8, 8, 8)))"
    by blast
  then have c1: "isPrivateIp ?isIP ''8.8.8.8'' = Inr False"
    unfolding text_examples value_examples by (simp add: tableV4_def cidr4_def)
  from isPrivateIp_tables[of "(172, 16, 0, 1)" ?isIP] h2
  have "isPrivateIp ?isIP (dottedQuad (172, 16, 0, 1))
      = Inr (tableV4 (quadValue (172, 16, 0, 1)))"
    by blast
  then have c2: "isPrivateIp ?isIP ''172.16.0.1'' = Inr True"
    unfolding text_examples value_examples by (simp add: tableV4_def cidr4_def)
  from isPrivateIp_tables[of _ ?isIP ?pub] h3
  have "isPrivateIp ?isIP (v6String ?pub) = Inr (tableV6 (v6Value ?pub))" by blast
  then have c3: "isPrivateIp ?isIP ''2606:4700::1111'' = Inr False"
    unfolding text_examples value_examples by (simp add: tableV6_def cidr6_def)
  from isPrivateIp_tables[of _ ?isIP ?map] h4
  have "isPrivateIp ?isIP (v6String ?map) = Inr (tableV6 (v6Value ?map))" by blast
  then have c4: "isPrivateIp ?isIP ''::FfFf:10.0.0.1'' = Inr True"
    unfolding text_examples value_examples by (simp add: tableV6_def tableV4_def cidr4_def)
  from isPrivateIp_tables[of _ ?isIP ?ll] h5
  have "isPrivateIp ?isIP (v6String ?ll) = Inr (tableV6 (v6Value ?ll))" by blast
  then have c5: "isPrivateIp ?isIP ''fe80::1'' = Inr True"
    unfolding text_examples value_examples by (simp add: tableV6_def cidr6_def)
  from c1 c2 c3 c4 c5 show ?thesis by blast
qed

text \<open>
  C10. A string that \<open>net.isIP\<close> classifies neither as IPv4 nor as IPv6 is private,
  and so is one classified as IPv4 that \<open>ipv4ToInt\<close> cannot read. \<open>isPrivateIp\<close>
  answers false (public) only for a string that is classified as an address and that
  its own parser reads.
\<close>

theorem unparseable_is_private:
  "(isIP ip \<noteq> 4 \<and> isIP ip \<noteq> 6 \<longrightarrow> isPrivateIp isIP ip = Inr True)
   \<and> (isIP ip = 4 \<and> ipv4ToInt ip = None \<longrightarrow> isPrivateIp isIP ip = Inr True)
   \<and> (isPrivateIp isIP ip = Inr False \<longrightarrow>
        (isIP ip = 4 \<and> ipv4ToInt ip \<noteq> None) \<or> (isIP ip = 6 \<and> \<not> isl (ipv6ToBigInt ip)))"
proof -
  have a: "isPrivateIp isIP ip = Inr True" if "isIP ip \<noteq> 4 \<and> isIP ip \<noteq> 6"
    using that by (subst isPrivateIp.simps) simp
  have b: "isPrivateIp isIP ip = Inr True" if "isIP ip = 4 \<and> ipv4ToInt ip = None"
    using that by (subst isPrivateIp.simps) simp
  have c: "(isIP ip = 4 \<and> ipv4ToInt ip \<noteq> None) \<or> (isIP ip = 6 \<and> \<not> isl (ipv6ToBigInt ip))"
    if f: "isPrivateIp isIP ip = Inr False"
  proof (cases "isIP ip = 4")
    case True
    with b f show ?thesis by auto
  next
    case n4: False
    show ?thesis
    proof (cases "isIP ip = 6")
      case True
      have "\<not> isl (ipv6ToBigInt ip)"
      proof (cases "ipv6ToBigInt ip")
        case (Inl e)
        with True n4 have "isPrivateIp isIP ip = Inl e"
          by (subst isPrivateIp.simps) simp
        with f show ?thesis by simp
      next
        case (Inr addr)
        then show ?thesis by simp
      qed
      with True show ?thesis by simp
    next
      case False
      with n4 a f show ?thesis by auto
    qed
  qed
  from a b c show ?thesis by blast
qed

theorem unparseable_is_private_witness:
  "isPrivateIp (\<lambda>s. 0) ''localhost'' = Inr True
   \<and> isPrivateIp (\<lambda>s. 4) ''1.2.3'' = Inr True
   \<and> isPrivateIp (\<lambda>s. 4) ''8.8.8.8'' = Inr False
   \<and> ipv4ToInt ''8.8.8.8'' \<noteq> None"
proof -
  have h1: "(\<lambda>s :: string. 0 :: nat) ''localhost'' \<noteq> 4 \<and> (\<lambda>s :: string. 0 :: nat) ''localhost'' \<noteq> 6"
    by simp
  have h2: "(\<lambda>s :: string. 4 :: nat) ''1.2.3'' = 4 \<and> ipv4ToInt ''1.2.3'' = None"
    by (simp add: str_defs)
  have h3: "isPrivateIp (\<lambda>s. 4) ''8.8.8.8'' = Inr False"
    using isPrivateIp_v4[of "\<lambda>s. 4" "''8.8.8.8''", OF _ ipv4ToInt_examples(4)]
    by (simp add: tableV4_def cidr4_def)
  from unparseable_is_private[of "\<lambda>s. 0" "''localhost''"] h1
  have c1: "isPrivateIp (\<lambda>s. 0) ''localhost'' = Inr True" by blast
  from unparseable_is_private[of "\<lambda>s. 4" "''1.2.3''"] h2
  have c2: "isPrivateIp (\<lambda>s. 4) ''1.2.3'' = Inr True" by blast
  from unparseable_is_private[of "\<lambda>s. 4" "''8.8.8.8''"] h3
  have c3: "ipv4ToInt ''8.8.8.8'' \<noteq> None" by simp
  from c1 c2 h3 c3 show ?thesis by blast
qed


section \<open>Properties of the network policy\<close>








lemma decoy_addresses:
  "isPrivateIp decoy_isIP ''93.184.216.34'' = Inr False"
  "isPrivateIp decoy_isIP ''10.0.0.1'' = Inr True"
  "isPrivateIp decoy_isIP ''127.0.0.1'' = Inr True"
proof -
  have p: "ipv4ToInt ''93.184.216.34'' = Some 1572395042" by (simp add: str_defs)
  show "isPrivateIp decoy_isIP ''93.184.216.34'' = Inr False"
    using isPrivateIp_v4[of decoy_isIP "''93.184.216.34''", OF _ p]
    by (simp add: decoy_isIP_def tableV4_def cidr4_def)
  show "isPrivateIp decoy_isIP ''10.0.0.1'' = Inr True"
    using isPrivateIp_v4[of decoy_isIP "''10.0.0.1''", OF _ ipv4ToInt_examples(2)]
    by (simp add: decoy_isIP_def tableV4_def cidr4_def)
  show "isPrivateIp decoy_isIP ''127.0.0.1'' = Inr True"
    using isPrivateIp_v4[of decoy_isIP "''127.0.0.1''", OF _ ipv4ToInt_examples(1)]
    by (simp add: decoy_isIP_def tableV4_def cidr4_def)
qed








section \<open>Properties of the guarded fetcher\<close>

lemma request_position:
  assumes "Validate i c # Request i h # later = pre @ Request j u # post"
  shows "(pre = [Validate i c] \<and> j = i \<and> u = h \<and> post = later)
       \<or> (\<exists>pre2. pre = Validate i c # Request i h # pre2 \<and> later = pre2 @ Request j u # post)"
proof (cases pre)
  case Nil
  with assms show ?thesis by simp
next
  case (Cons x xs)
  with assms have x: "x = Validate i c" and r: "Request i h # later = xs @ Request j u # post"
    by simp_all
  show ?thesis
  proof (cases xs)
    case Nil
    with r x Cons show ?thesis by simp
  next
    case (Cons y ys)
    with r have "y = Request i h" "later = ys @ Request j u # post" by simp_all
    with x Cons \<open>pre = x # xs\<close> show ?thesis by simp
  qed
qed

lemma no_request_in_single:
  "[Validate i c] = pre @ Request j u # post \<Longrightarrow> False"
  by (cases pre) (simp_all add: Cons_eq_append_conv)

lemma request_in_pair:
  assumes "[Validate i c, Request i h] = pre @ Request j u # post"
  shows "pre = [Validate i c] \<and> j = i \<and> u = h"
  using request_position[of i c h "[]" pre j u post] assms by auto

lemma fetchLoop_guarded:
  "fetchLoop env input n i current redirects = (tr, res) \<Longrightarrow> tr = pre @ Request j u # post
     \<Longrightarrow> \<exists>pre' cur allowed. pre = pre' @ [Validate j cur]
           \<and> assertUrlAllowed (e_isIP env) (e_parseURL env) (e_lookup env j) cur = Inr allowed
           \<and> href allowed = u"
proof (induction n arbitrary: i current redirects tr res pre post)
  case 0
  then show ?case by simp
next
  case (Suc n)
  show ?case
  proof (cases "assertUrlAllowed (e_isIP env) (e_parseURL env) (e_lookup env i) current")
    case (Inl c)
    with Suc.prems have "[Validate i current] = pre @ Request j u # post" by auto
    then show ?thesis using no_request_in_single by blast
  next
    case (Inr a)
    have here: "\<exists>pre' cur allowed. pre = pre' @ [Validate j cur]
           \<and> assertUrlAllowed (e_isIP env) (e_parseURL env) (e_lookup env j) cur = Inr allowed
           \<and> href allowed = u"
      if "[Validate i current, Request i (href a)] = pre @ Request j u # post"
    proof -
      from request_in_pair[OF that] have "pre = [] @ [Validate j current]" "href a = u" "j = i"
        by simp_all
      with Inr show ?thesis by blast
    qed
    consider
      (stop1) "tr = [Validate i current]"
      | (stop2) "tr = [Validate i current, Request i (href a)]"
      | (more) later nxt reds where
          "tr = Validate i current # Request i (href a) # later"
          "fetchLoop env input n (Suc i) nxt reds = (later, res)"
      using Suc.prems(1) Inr
      by (auto simp: Let_def split: if_splits option.splits prod.splits)
    then show ?thesis
    proof cases
      case stop1
      with Suc.prems(2) have "[Validate i current] = pre @ Request j u # post" by simp
      then show ?thesis using no_request_in_single by blast
    next
      case stop2
      with Suc.prems(2)
      have "[Validate i current, Request i (href a)] = pre @ Request j u # post" by simp
      then show ?thesis by (rule here)
    next
      case more
      from more(1) Suc.prems(2)
      have "Validate i current # Request i (href a) # later = pre @ Request j u # post" by simp
      from request_position[OF this]
      show ?thesis
      proof
        assume "pre = [Validate i current] \<and> j = i \<and> u = href a \<and> post = later"
        then have "pre = [] @ [Validate j current]" "href a = u" "j = i" by simp_all
        with Inr show ?thesis by blast
      next
        assume "\<exists>pre2. pre = Validate i current # Request i (href a) # pre2
                  \<and> later = pre2 @ Request j u # post"
        then obtain pre2 where p: "pre = Validate i current # Request i (href a) # pre2"
          and l: "later = pre2 @ Request j u # post" by blast
        from Suc.IH[OF more(2) l] obtain pre' cur allowed where
          "pre2 = pre' @ [Validate j cur]"
          "assertUrlAllowed (e_isIP env) (e_parseURL env) (e_lookup env j) cur = Inr allowed"
          "href allowed = u" by blast
        with p have "pre = (Validate i current # Request i (href a) # pre') @ [Validate j cur]"
          by simp
        with \<open>assertUrlAllowed (e_isIP env) (e_parseURL env) (e_lookup env j) cur = Inr allowed\<close>
          \<open>href allowed = u\<close> show ?thesis by blast
      qed
    qed
  qed
qed

lemma fetchLoop_first:
  "fetchLoop env input n i current redirects = (tr, res) \<Longrightarrow> tr \<noteq> []
     \<Longrightarrow> hd tr = Validate i current"
  by (cases n) (auto simp: Let_def split: sum.splits if_splits option.splits prod.splits)


lemma not_blocked_literals:
  "\<not> isBlockedHostname ''93.184.216.34''" "\<not> isBlockedHostname ''127.0.0.1''"
  by (simp_all add: isBlockedHostname_def normalizeHostname_def toLowerCase_def lowerChar_def
      endsWith_def)

lemma chain_policy:
  "assertUrlAllowed (e_isIP chain_env) (e_parseURL chain_env) (e_lookup chain_env i)
     ''http://93.184.216.34/'' = Inr chain_public"
  "assertUrlAllowed (e_isIP chain_env) (e_parseURL chain_env) (e_lookup chain_env i)
     ''http://127.0.0.1/'' = Inl SSRF_BLOCKED"
  by (simp_all add: assertUrlAllowed_def chain_env_def chain_public_def chain_loopback_def
      not_blocked_literals decoy_addresses, simp_all add: decoy_isIP_def)

lemma chain_run:
  "fetchWithGuards chain_env chain_input
     = ([Validate 0 ''http://93.184.216.34/'', Request 0 ''http://93.184.216.34/'',
         Validate 1 ''http://127.0.0.1/''],
        Inl (ToolError SSRF_BLOCKED))"
proof -
  have n: "nat (maxRedirects chain_input + 1) = Suc (Suc (Suc (Suc 0)))"
    by (simp add: chain_input_def)
  have u: "url chain_input = ''http://93.184.216.34/''" by (simp add: chain_input_def)
  have f: "e_fetchIsFunction chain_env" "e_signal chain_env = None"
    "e_fetchImpl chain_env i v = Some \<lparr> status = 302, statusText = ''Found'', ok = False,
                                   headers = [(''location'', ''http://127.0.0.1/'')],
                                   body = None \<rparr>"
    "e_resolve chain_env l b = Some l" for i v l b
    by (simp_all add: chain_env_def)
  have h: "href chain_public = ''http://93.184.216.34/''" by (simp add: chain_public_def)
  show ?thesis
    unfolding fetchWithGuards_def n u
    by (simp add: chain_policy f h isRedirectStatus_def headerGet_def)
qed


text \<open>
  C1. In every call of \<open>fetchWithGuards\<close>, whatever the redirect chain, a GET request
  is issued in iteration \<open>j\<close> to a URL only directly after the policy check of
  iteration \<open>j\<close>, and that check has succeeded on the current URL string and returned
  the very URL that is requested. The first thing a call does on the network is the
  check of the initial URL.
\<close>

theorem per_hop_validation:
  assumes "fetchWithGuards env input = (tr, res)"
  shows "(\<forall>pre j u post. tr = pre @ Request j u # post \<longrightarrow>
           (\<exists>pre' cur allowed. pre = pre' @ [Validate j cur]
              \<and> assertUrlAllowed (e_isIP env) (e_parseURL env) (e_lookup env j) cur = Inr allowed
              \<and> href allowed = u))
       \<and> (tr \<noteq> [] \<longrightarrow> hd tr = Validate 0 (url input))"
proof (cases "e_fetchIsFunction env")
  case True
  with assms have l: "fetchLoop env input (nat (maxRedirects input + 1)) 0 (url input) [] = (tr, res)"
    by (simp add: fetchWithGuards_def)
  from fetchLoop_guarded[OF l] fetchLoop_first[OF l] show ?thesis by blast
next
  case False
  with assms have "tr = []" by (simp add: fetchWithGuards_def)
  then show ?thesis by simp
qed

theorem per_hop_validation_witness:
  "fetchWithGuards chain_env chain_input
     = ([Validate 0 ''http://93.184.216.34/'', Request 0 ''http://93.184.216.34/'',
         Validate 1 ''http://127.0.0.1/''],
        Inl (ToolError SSRF_BLOCKED))
   \<and> (\<exists>cur allowed.
         assertUrlAllowed (e_isIP chain_env) (e_parseURL chain_env) (e_lookup chain_env 0) cur
           = Inr allowed
         \<and> href allowed = ''http://93.184.216.34/'')"
proof -
  have d: "[Validate 0 ''http://93.184.216.34/'', Request 0 ''http://93.184.216.34/'',
         Validate 1 ''http://127.0.0.1/'']
      = [Validate 0 ''http://93.184.216.34/''] @ Request 0 ''http://93.184.216.34/''
          # [Validate 1 ''http://127.0.0.1/'']"
    by simp
  from per_hop_validation[OF chain_run] d
  have "\<exists>pre' cur allowed. [Validate 0 ''http://93.184.216.34/''] = pre' @ [Validate 0 cur]
      \<and> assertUrlAllowed (e_isIP chain_env) (e_parseURL chain_env) (e_lookup chain_env 0) cur
           = Inr allowed
      \<and> href allowed = ''http://93.184.216.34/''"
    by blast
  then have "\<exists>cur allowed.
         assertUrlAllowed (e_isIP chain_env) (e_parseURL chain_env) (e_lookup chain_env 0) cur
           = Inr allowed
         \<and> href allowed = ''http://93.184.216.34/''"
    by blast
  with chain_run show ?thesis by blast
qed

end
